theory Spec2Isabelle
  imports Complex_Main "HOL-Library.Log_Nat"
begin

section \<open>The verification workflow store of \<open>src/context/VerifyContext.js\<close>\<close>

text \<open>
  \<open>VerifyProvider\<close> is a React function component. Each \<open>useState\<close> pair is one
  field of the record \<open>state\<close>. A handler (\<open>approveAll\<close>, \<open>undoAll\<close>,
  \<open>clickCapture\<close>, ...) is a closure created by one render: every state variable it
  reads is the constant of that render, also after an \<open>await\<close>. In the model this render
  is the first argument \<open>r\<close> of each handler. A setter call \<open>setX(v)\<close> writes the field of
  the store \<open>st\<close> that the handler threads through and returns; a later write to the same
  field wins. When a handler is started from the render on screen, \<open>st = r\<close>.

  The calls to \<open>api\<close> (\<open>../api/treeTrackerApi\<close>, not part of the file) are recorded in
  a trace, and each answer comes from a parameter \<open>api\<close> that sees the calls made before.
  Logging is left out. The percentage \<open>approveAllComplete\<close> is a double, kept as the
  rational it denotes.
\<close>

subsection \<open>Data\<close>

text \<open>A capture image: field \<open>id\<close> of the source is \<open>id_of\<close>; the other fields are opaque.\<close>

record capture =
  id_of :: int
  details :: string

text \<open>The filter object (\<open>new FilterModel({approved, active})\<close>), only passed on.\<close>

record FilterModel =
  approved :: bool
  active :: bool

text \<open>The action object of \<open>approve\<close>; \<open>tags\<close> is \<open>None\<close> when the property is missing.\<close>

record approveAction =
  isApproved :: bool
  morphology :: string
  age :: string
  captureApprovalTag :: string
  speciesId :: int
  rejectionReason :: string
  tags :: "string list option"

text \<open>The state variables of \<open>VerifyProvider\<close> (lines 36 to 52); \<open>filter\<close> is \<open>filter_of\<close>.\<close>

record state =
  captureImages :: "capture list"
  captureImagesUndo :: "capture list"
  captureImagesSelected :: "int list"
  captureImageAnchor :: "int option"
  isLoading :: bool
  isApproveAllProcessing :: bool
  approveAllComplete :: rat
  pageSize :: int
  currentPage :: int
  filter_of :: FilterModel
  invalidateCaptureCount :: bool
  captureCount :: "int option"

text \<open>The payload of \<open>clickCapture\<close>.\<close>

record payload =
  captureId :: int
  isShift :: bool
  isCmd :: bool
  isCtrl :: bool

subsection \<open>The external API\<close>

datatype api_call =
    ApproveCaptureImage int string string string int
  | RejectCaptureImage int string
  | CreateCaptureTags int "string list"
  | UndoCaptureImage int
  | GetCaptureImages int int FilterModel

text \<open>
  What awaiting a call gives: the promise is rejected, it resolves with no value of
  interest, or it resolves with a page of captures.
\<close>

datatype response = Rejected | Resolved | Captures "capture list"

text \<open>The server: the answer to a call, given the calls made before it.\<close>

type_synonym api = "api_call list \<Rightarrow> api_call \<Rightarrow> response"

text \<open>
  What a handler can throw: \<open>Error(msg)\<close>, a \<open>TypeError\<close> of the runtime (a property of
  \<open>undefined\<close>, \<open>reduce\<close> of an empty array), or the rejection of an awaited call.
\<close>

datatype error = Error string | TypeError | Rejection api_call

text \<open>The store written by the setters, and the calls made so far.\<close>

type_synonym world = "state \<times> api_call list"

subsection \<open>Numbers\<close>

text \<open>
  A JavaScript number is an IEEE 754 double. A finite double is kept as the rational it
  denotes, and an arithmetic operation gives the double nearest to the exact result, ties to
  the even significand (53 bits). The exponent range, the infinities and NaN are left out:
  the only operations on non-integers are those of \<open>100 * ((i + 1) / total)\<close>, with
  \<open>0 < i + 1 \<le> total\<close> and \<open>total\<close> the length of an array, where every operand and
  result lies between \<open>2 powi (- 1022)\<close> and 100.

  \<open>expo x\<close>, for \<open>0 < x\<close>, is the exponent \<open>e\<close> with \<open>2 powi e \<le> x < 2 powi (e + 1)\<close>.
\<close>

definition expo :: "rat \<Rightarrow> int" where
  "expo x =
     (let e0 = bitlen (fst (quotient_of x)) - bitlen (snd (quotient_of x))
      in if 2 powi e0 \<le> x then e0 else e0 - 1)"

definition roundEven :: "rat \<Rightarrow> int" where
  "roundEven q =
     (let f = \<lfloor>q\<rfloor>; d = q - of_int f
      in if d < 1 / 2 then f else if 1 / 2 < d then f + 1 else if even f then f else f + 1)"

definition double :: "rat \<Rightarrow> rat" where
  "double x =
     (if x = 0 then 0
      else let u = 2 powi (expo \<bar>x\<bar> - 52)
           in sgn x * of_int (roundEven (\<bar>x\<bar> / u)) * u)"

text \<open>The operators \<open>*\<close> and \<open>/\<close> on numbers (the divisor is not 0 where the source divides).\<close>

definition js_times :: "rat \<Rightarrow> rat \<Rightarrow> rat" where
  "js_times x y = double (x * y)"

definition js_divide :: "rat \<Rightarrow> rat \<Rightarrow> rat" where
  "js_divide x y = double (x / y)"

subsection \<open>State helper functions\<close>

text \<open>\<open>resetSelection\<close>, lines 96 to 99.\<close>

definition resetSelection :: "state \<Rightarrow> state" where
  "resetSelection st = st\<lparr>captureImagesSelected := [], captureImageAnchor := None\<rparr>"

text \<open>
  \<open>undoedCaptureImage(state, captureId)\<close>, lines 71 to 84. A parameter that the caller
  does not pass is \<open>undefined\<close>, here \<open>None\<close>. \<open>reduce\<close> without an initial value starts
  from the first element and throws on an empty array. \<open>sort\<close> with the comparator
  \<open>a.id - b.id\<close> is a stable sort by ascending id.
\<close>

definition undoedCaptureImage ::
  "state \<Rightarrow> int option \<Rightarrow> int option \<Rightarrow> state \<Rightarrow> error + state" where
  "undoedCaptureImage r state_arg captureId_arg st =
     (case captureImagesUndo r of
        [] \<Rightarrow> Inl TypeError
      | u # us \<Rightarrow>
          let captureUndo = foldl (\<lambda>a c. if Some (id_of c) = captureId_arg then c else a) u us;
              undoneImages = filter (\<lambda>capture. Some (id_of capture) \<noteq> captureId_arg)
                               (captureImagesUndo r);
              captures = sort_key id_of (captureImages r @ [captureUndo])
          in Inr (st\<lparr>captureImages := captures, captureImagesUndo := undoneImages\<rparr>))"

subsection \<open>Event handlers\<close>

text \<open>The first call of \<open>approve\<close>: approve or reject, by \<open>isApproved\<close>.\<close>

definition approveOrReject :: "approveAction \<Rightarrow> int \<Rightarrow> api_call" where
  "approveOrReject a i =
     (if isApproved a
      then ApproveCaptureImage i (morphology a) (age a) (captureApprovalTag a) (speciesId a)
      else RejectCaptureImage i (rejectionReason a))"

text \<open>
  \<open>approve({approveAction, id})\<close>, lines 103 to 126. An absent action throws before any
  call; a present \<open>tags\<close> property adds the tag call.
\<close>

definition approve ::
  "api \<Rightarrow> approveAction option \<Rightarrow> int \<Rightarrow> api_call list \<Rightarrow> (error + bool) \<times> api_call list" where
  "approve api approveAction_arg i tr =
     (case approveAction_arg of
        None \<Rightarrow> (Inl (Error ''no approve action object!''), tr)
      | Some a \<Rightarrow>
          let c1 = approveOrReject a i; tr1 = tr @ [c1] in
          if api tr c1 = Rejected then (Inl (Rejection c1), tr1)
          else (case tags a of
                  None \<Rightarrow> (Inr True, tr1)
                | Some ts \<Rightarrow>
                    let c2 = CreateCaptureTags i ts; tr2 = tr1 @ [c2] in
                    if api tr1 c2 = Rejected then (Inl (Rejection c2), tr2)
                    else (Inr True, tr2)))"

text \<open>
  \<open>undoCaptureImage(id)\<close>, lines 128 to 132. It calls \<open>undoedCaptureImage(id)\<close> with one
  argument, so the id is bound to the parameter \<open>state\<close> and \<open>captureId\<close> is undefined.
\<close>

definition undoCaptureImage :: "state \<Rightarrow> api \<Rightarrow> int \<Rightarrow> world \<Rightarrow> (error + bool) \<times> world" where
  "undoCaptureImage r api i w =
     (case w of (st, tr) \<Rightarrow>
        let c = UndoCaptureImage i; tr1 = tr @ [c] in
        if api tr c = Rejected then (Inl (Rejection c), (st, tr1))
        else (case undoedCaptureImage r (Some i) None st of
                Inl e \<Rightarrow> (Inl e, (st, tr1))
              | Inr st1 \<Rightarrow> (Inr True, (st1, tr1))))"

text \<open>
  \<open>loadCaptureImages(abortController)\<close>, lines 134 to 155. It returns \<open>true\<close> when a load
  is in progress and nothing (\<open>None\<close>) after a load. The awaited fetch is not in a
  \<open>try\<close>: a rejection leaves the handler at that point. \<open>result.length\<close> throws when the
  promise resolved with no value.
\<close>

definition loadCaptureImages :: "state \<Rightarrow> api \<Rightarrow> world \<Rightarrow> (error + bool option) \<times> world" where
  "loadCaptureImages r api w =
     (case w of (st, tr) \<Rightarrow>
        if isLoading r then (Inr (Some True), (st, tr))
        else
          let st1 = st\<lparr>isLoading := True\<rparr>;
              pageParams = GetCaptureImages (pageSize r * currentPage r) (pageSize r) (filter_of r)
          in (case api tr pageParams of
                Rejected \<Rightarrow> (Inl (Rejection pageParams), (st1, tr @ [pageParams]))
              | Resolved \<Rightarrow> (Inl TypeError, (st1, tr @ [pageParams]))
              | Captures result \<Rightarrow>
                  (Inr None, (st1\<lparr>captureImages := result, isLoading := False\<rparr>,
                              tr @ [pageParams]))))"

text \<open>
  The body of the \<open>for\<close> loop of \<open>approveAll\<close>, lines 169 to 183, for index \<open>i\<close>.
  \<open>captureImagesSelected[i]\<close> is undefined out of range; the \<open>reduce\<close> keeps the last
  capture with that id and starts from \<open>undefined\<close>, and \<open>captureImage.id\<close> then throws.
\<close>

definition approveItem ::
  "state \<Rightarrow> api \<Rightarrow> approveAction option \<Rightarrow> nat \<Rightarrow> nat \<Rightarrow> world \<Rightarrow> (error + unit) \<times> world" where
  "approveItem r api approveAction_arg total_n i w =
     (case w of (st, tr) \<Rightarrow>
        let captureId_i = (if i < length (captureImagesSelected r)
                           then Some (captureImagesSelected r ! i) else None);
            captureImage = foldl (\<lambda>a c. if Some (id_of c) = captureId_i then Some c else a)
                             None (captureImages r)
        in (case captureImage of
              None \<Rightarrow> (Inl TypeError, (st, tr))
            | Some ci \<Rightarrow>
                (case approve api approveAction_arg (id_of ci) tr of
                   (Inl e, tr1) \<Rightarrow> (Inl e, (st, tr1))
                 | (Inr b, tr1) \<Rightarrow>
                     (Inr (), (st\<lparr>approveAllComplete := js_times 100 (js_divide (of_nat (i + 1)) (of_nat total_n))\<rparr>,
                               tr1)))))"

text \<open>The loop \<open>for (let i = 0; i < total; i++)\<close>; it stops at the first throw.\<close>

function approveLoop ::
  "state \<Rightarrow> api \<Rightarrow> approveAction option \<Rightarrow> nat \<Rightarrow> nat \<Rightarrow> world \<Rightarrow> (error + unit) \<times> world" where
  "approveLoop r api approveAction_arg total_n i w =
     (if i < total_n
      then (case approveItem r api approveAction_arg total_n i w of
              (Inl e, w1) \<Rightarrow> (Inl e, w1)
            | (Inr u, w1) \<Rightarrow> approveLoop r api approveAction_arg total_n (Suc i) w1)
      else (Inr (), w))"
  by pat_completeness auto
termination
  by (relation "measure (\<lambda>(r, api, a, total_n, i, w). total_n - i)") auto

declare approveLoop.simps [simp del]

text \<open>
  \<open>approveAll(approveAction)\<close>, lines 157 to 200. A throw inside the loop is caught and
  gives \<open>false\<close>; the reload after the loop is outside the \<open>try\<close>.
\<close>

definition approveAll ::
  "state \<Rightarrow> api \<Rightarrow> approveAction option \<Rightarrow> world \<Rightarrow> (error + bool) \<times> world" where
  "approveAll r api approveAction_arg w =
     (case w of (st, tr) \<Rightarrow>
        let st1 = st\<lparr>isLoading := True, isApproveAllProcessing := True\<rparr>;
            total_n = length (captureImagesSelected r);
            undo = filter (\<lambda>capture. list_ex (\<lambda>i. i = id_of capture) (captureImagesSelected r))
                     (captureImages r)
        in (case approveLoop r api approveAction_arg total_n 0 (st1, tr) of
              (Inl e, (st2, tr2)) \<Rightarrow>
                (Inr False, (st2\<lparr>isLoading := False, isApproveAllProcessing := False\<rparr>, tr2))
            | (Inr u, (st2, tr2)) \<Rightarrow>
                (case loadCaptureImages r api
                        (st2\<lparr>captureImagesUndo := undo, isLoading := False\<rparr>, tr2) of
                   (Inl e, w3) \<Rightarrow> (Inl e, w3)
                 | (Inr b, (st3, tr3)) \<Rightarrow>
                     (Inr True,
                      (resetSelection
                         (st3\<lparr>isApproveAllProcessing := False, approveAllComplete := 0,
                               invalidateCaptureCount := True\<rparr>),
                       tr3)))))"

text \<open>The body of the \<open>for\<close> loop of \<open>undoAll\<close>, lines 211 to 216, for index \<open>i\<close>.\<close>

definition undoItem :: "state \<Rightarrow> api \<Rightarrow> nat \<Rightarrow> nat \<Rightarrow> world \<Rightarrow> (error + unit) \<times> world" where
  "undoItem r api total_n i w =
     (if i < length (captureImagesUndo r)
      then (case undoCaptureImage r api (id_of (captureImagesUndo r ! i)) w of
              (Inl e, w1) \<Rightarrow> (Inl e, w1)
            | (Inr b, (st1, tr1)) \<Rightarrow>
                (Inr (), (st1\<lparr>approveAllComplete := js_times 100 (js_divide (of_nat (i + 1)) (of_nat total_n)),
                               invalidateCaptureCount := True\<rparr>, tr1)))
      else (Inl TypeError, w))"

text \<open>The loop \<open>for (let i = 0; i < captureImagesUndo.length; i++)\<close>.\<close>

function undoLoop :: "state \<Rightarrow> api \<Rightarrow> nat \<Rightarrow> nat \<Rightarrow> world \<Rightarrow> (error + unit) \<times> world" where
  "undoLoop r api total_n i w =
     (if i < length (captureImagesUndo r)
      then (case undoItem r api total_n i w of
              (Inl e, w1) \<Rightarrow> (Inl e, w1)
            | (Inr u, w1) \<Rightarrow> undoLoop r api total_n (Suc i) w1)
      else (Inr (), w))"
  by pat_completeness auto
termination
  by (relation "measure (\<lambda>(r, api, total_n, i, w). length (captureImagesUndo r) - i)") auto

declare undoLoop.simps [simp del]

text \<open>
  \<open>undoAll()\<close>, lines 202 to 233. The \<open>catch\<close> block sets both flags to \<open>true\<close>.
\<close>

definition undoAll :: "state \<Rightarrow> api \<Rightarrow> world \<Rightarrow> (error + bool) \<times> world" where
  "undoAll r api w =
     (case w of (st, tr) \<Rightarrow>
        let st1 = st\<lparr>isLoading := True, isApproveAllProcessing := True\<rparr>;
            total_n = length (captureImagesUndo r)
        in (case undoLoop r api total_n 0 (st1, tr) of
              (Inl e, (st2, tr2)) \<Rightarrow>
                (Inr False, (st2\<lparr>isLoading := True, isApproveAllProcessing := True\<rparr>, tr2))
            | (Inr u, (st2, tr2)) \<Rightarrow>
                (Inr True,
                 (resetSelection
                    (st2\<lparr>isLoading := False, isApproveAllProcessing := False,
                          approveAllComplete := 0, invalidateCaptureCount := True\<rparr>),
                  tr2))))"

subsection \<open>Selection\<close>

text \<open>
  The \<open>reduce((a, c, i) => ..., -1)\<close> of \<open>clickCapture\<close>: the last index whose capture has
  the id, or \<open>-1\<close>.
\<close>

definition indexOfId :: "capture list \<Rightarrow> int \<Rightarrow> int" where
  "indexOfId cs k =
     foldl (\<lambda>a (c, i). if id_of c = k then int i else a) (- 1) (zip cs [0..<length cs])"

text \<open>
  \<open>Array.prototype.slice(start, end)\<close>: a negative bound counts from the end, both
  bounds are clamped to the array, and an empty range gives the empty array.
\<close>

definition slice :: "'a list \<Rightarrow> int \<Rightarrow> int \<Rightarrow> 'a list" where
  "slice xs start end =
     (let len = int (length xs);
          k = (if start < 0 then max (len + start) 0 else min start len);
          final = (if end < 0 then max (len + end) 0 else min end len)
      in take (nat (final - k)) (drop (nat k) xs))"

text \<open>
  The test \<open>if (captureImagesSelected.find((el) => el === captureId))\<close>: \<open>find\<close> gives the
  element or \<open>undefined\<close>, and the number \<open>0\<close> is falsy.
\<close>

definition findTruthy :: "int list \<Rightarrow> int \<Rightarrow> bool" where
  "findTruthy sel k = (case find (\<lambda>el. el = k) sel of None \<Rightarrow> False | Some el \<Rightarrow> el \<noteq> 0)"

text \<open>\<open>clickCapture(payload)\<close>, lines 250 to 296.\<close>

definition clickCapture :: "state \<Rightarrow> payload \<Rightarrow> state \<Rightarrow> state" where
  "clickCapture r p st =
     (if \<not> isShift p \<and> \<not> isCmd p \<and> \<not> isCtrl p
      then st\<lparr>captureImagesSelected := [captureId p], captureImageAnchor := Some (captureId p)\<rparr>
      else if isShift p
      then
        let indexAnchor = (case captureImageAnchor r of
                             None \<Rightarrow> 0
                           | Some anchor \<Rightarrow> indexOfId (captureImages r) anchor);
            indexCurrent = indexOfId (captureImages r) (captureId p);
            selected = map id_of (slice (captureImages r) (min indexAnchor indexCurrent)
                                        (max indexAnchor indexCurrent + 1))
        in st\<lparr>captureImagesSelected := selected\<rparr>
      else if isCmd p \<or> isCtrl p
      then
        let selectedImages =
              (if findTruthy (captureImagesSelected r) (captureId p)
               then filter (\<lambda>capture. capture \<noteq> captureId p) (captureImagesSelected r)
               else captureImagesSelected r @ [captureId p])
        in st\<lparr>captureImagesSelected := selectedImages\<rparr>
      else st)"

subsection \<open>Notions used to state the properties\<close>

text \<open>
  The world after the first \<open>k\<close> rounds of the loop of \<open>approveAll\<close>, or the throw that
  ended them.
\<close>

fun approvePrefix ::
  "state \<Rightarrow> api \<Rightarrow> approveAction option \<Rightarrow> nat \<Rightarrow> nat \<Rightarrow> world \<Rightarrow> (error + unit) \<times> world" where
  "approvePrefix r api approveAction_arg total_n 0 w = (Inr (), w)"
| "approvePrefix r api approveAction_arg total_n (Suc k) w =
     (case approvePrefix r api approveAction_arg total_n k w of
        (Inl e, w1) \<Rightarrow> (Inl e, w1)
      | (Inr u, w1) \<Rightarrow> approveItem r api approveAction_arg total_n k w1)"

text \<open>The same for the loop of \<open>undoAll\<close>.\<close>

fun undoPrefix :: "state \<Rightarrow> api \<Rightarrow> nat \<Rightarrow> nat \<Rightarrow> world \<Rightarrow> (error + unit) \<times> world" where
  "undoPrefix r api total_n 0 w = (Inr (), w)"
| "undoPrefix r api total_n (Suc k) w =
     (case undoPrefix r api total_n k w of
        (Inl e, w1) \<Rightarrow> (Inl e, w1)
      | (Inr u, w1) \<Rightarrow> undoItem r api total_n k w1)"

text \<open>The calls that \<open>approve\<close> makes for one id when none is rejected.\<close>

definition itemCalls :: "approveAction \<Rightarrow> int \<Rightarrow> api_call list" where
  "itemCalls a i =
     approveOrReject a i # (case tags a of None \<Rightarrow> [] | Some ts \<Rightarrow> [CreateCaptureTags i ts])"

text \<open>Approve and reject calls; approve, reject and tag calls.\<close>

fun isApproveReject :: "api_call \<Rightarrow> bool" where
  "isApproveReject (ApproveCaptureImage i m a t s) = True"
| "isApproveReject (RejectCaptureImage i reason) = True"
| "isApproveReject c = False"

fun isItemCall :: "api_call \<Rightarrow> bool" where
  "isItemCall (ApproveCaptureImage i m a t s) = True"
| "isItemCall (RejectCaptureImage i reason) = True"
| "isItemCall (CreateCaptureTags i ts) = True"
| "isItemCall c = False"

subsection \<open>Example states and servers\<close>

definition img :: "int \<Rightarrow> capture" where
  "img k = \<lparr>id_of = k, details = ''capture''\<rparr>"

text \<open>
  A loaded page with the captures 1 to 5, of which 2, 4 and 5 are selected and 2 is the
  anchor; nothing is loading.
\<close>

definition page5 :: state where
  "page5 = \<lparr>captureImages = [img 1, img 2, img 3, img 4, img 5],
            captureImagesUndo = [],
            captureImagesSelected = [2, 4, 5],
            captureImageAnchor = Some 2,
            isLoading = False,
            isApproveAllProcessing = False,
            approveAllComplete = 0,
            pageSize = 24,
            currentPage = 0,
            filter_of = \<lparr>approved = False, active = True\<rparr>,
            invalidateCaptureCount = False,
            captureCount = Some 5\<rparr>"

text \<open>The same page with nothing selected and no anchor.\<close>

definition noSelection :: state where
  "noSelection = page5\<lparr>captureImagesSelected := [], captureImageAnchor := None\<rparr>"

text \<open>The same page with its anchor left from another page: no loaded capture has id 9.\<close>

definition staleAnchor :: state where
  "staleAnchor = page5\<lparr>captureImagesSelected := [9], captureImageAnchor := Some 9\<rparr>"

text \<open>A page with capture 3, after the captures 1 and 2 were approved.\<close>

definition afterApprove :: state where
  "afterApprove = page5\<lparr>captureImages := [img 3], captureImagesUndo := [img 1, img 2],
                         captureImagesSelected := [], captureImageAnchor := None\<rparr>"

definition approving :: approveAction where
  "approving = \<lparr>isApproved = True, morphology = ''seedling'', age = ''new_tree'',
                 captureApprovalTag = ''simple_leaf'', speciesId = 7,
                 rejectionReason = ''none'', tags = Some [''pine'']\<rparr>"

text \<open>A server that resolves every call; a page request gives the captures 1 and 3.\<close>

definition resolving :: api where
  "resolving h c = (case c of GetCaptureImages s n f \<Rightarrow> Captures [img 1, img 3] | _ \<Rightarrow> Resolved)"

text \<open>A server that rejects one call and resolves every other call.\<close>

definition rejecting :: "api_call \<Rightarrow> api" where
  "rejecting bad h c = (if c = bad then Rejected else resolving h c)"

text \<open>A modifier click and a shift click on capture 2.\<close>

definition ctrlClick2 :: payload where
  "ctrlClick2 = \<lparr>captureId = 2, isShift = False, isCmd = False, isCtrl = True\<rparr>"

definition shiftClick2 :: payload where
  "shiftClick2 = \<lparr>captureId = 2, isShift = True, isCmd = False, isCtrl = False\<rparr>"

section \<open>Properties\<close>

subsection \<open>The loops and their rounds\<close>

lemma foldl_keep: "foldl (\<lambda>a c. a) u us = u"
  by (induction us) auto

lemma lookup_Some:
  "foldl (\<lambda>a c. if id_of c = k then Some c else a) a0 cs = Some ci \<Longrightarrow>
     a0 = Some ci \<or> (ci \<in> set cs \<and> id_of ci = k)"
  by (induction cs arbitrary: a0) (auto split: if_splits)

lemma lookup_found:
  "k \<in> id_of ` set cs \<Longrightarrow>
     \<exists>ci. foldl (\<lambda>a c. if id_of c = k then Some c else a) a0 cs = Some ci"
proof (induction cs arbitrary: a0 rule: rev_induct)
  case Nil
  then show ?case by simp
next
  case (snoc x xs)
  then show ?case by (cases "id_of x = k") auto
qed

lemma approveItem_out:
  "\<not> i < length (captureImagesSelected r) \<Longrightarrow>
     approveItem r api a' n i (st, tr) = (Inl TypeError, (st, tr))"
  by (simp add: approveItem_def foldl_keep)

lemma approveItem_in:
  assumes i: "i < length (captureImagesSelected r)"
  shows "approveItem r api a' n i (st, tr) =
       (case foldl (\<lambda>a c. if id_of c = captureImagesSelected r ! i then Some c else a)
               None (captureImages r) of
          None \<Rightarrow> (Inl TypeError, (st, tr))
        | Some ci \<Rightarrow>
            (case approve api a' (captureImagesSelected r ! i) tr of
               (Inl e, tr1) \<Rightarrow> (Inl e, (st, tr1))
             | (Inr b, tr1) \<Rightarrow>
                 (Inr (), (st\<lparr>approveAllComplete := js_times 100 (js_divide (of_nat (i + 1)) (of_nat n))\<rparr>, tr1))))"
proof (cases "foldl (\<lambda>a c. if id_of c = captureImagesSelected r ! i then Some c else a)
               None (captureImages r)")
  case None
  with i show ?thesis by (simp add: approveItem_def)
next
  case (Some ci)
  from lookup_Some [OF Some] have "id_of ci = captureImagesSelected r ! i" by simp
  with Some i show ?thesis by (simp add: approveItem_def)
qed

lemma approve_Inr:
  "approve api a' i tr = (Inr b, tr') \<Longrightarrow> \<exists>a. a' = Some a \<and> tr' = tr @ itemCalls a i"
  by (auto simp: approve_def itemCalls_def Let_def split: option.splits if_splits)

lemma isApproveReject_approveOrReject [simp]: "isApproveReject (approveOrReject a i)"
  by (simp add: approveOrReject_def)

lemma approve_Inl:
  "approve api a' i tr = (Inl e, tr') \<Longrightarrow>
     (a' = None \<and> tr' = tr \<and> e = Error ''no approve action object!'') \<or>
     (\<exists>a c. a' = Some a \<and> e = Rejection c \<and>
        filter isApproveReject tr' = filter isApproveReject tr @ [approveOrReject a i])"
  by (auto simp: approve_def Let_def split: option.splits if_splits)

lemma approveItem_Inr:
  assumes "approveItem r api a' n i (st, tr) = (Inr u, (st', tr'))"
  shows "i < length (captureImagesSelected r) \<and>
         (\<exists>a. a' = Some a \<and> tr' = tr @ itemCalls a (captureImagesSelected r ! i)) \<and>
         st' = st\<lparr>approveAllComplete := js_times 100 (js_divide (of_nat (i + 1)) (of_nat n))\<rparr>"
proof (cases "i < length (captureImagesSelected r)")
  case False
  with assms show ?thesis by (simp add: approveItem_out)
next
  case True
  with assms show ?thesis
    by (auto simp: approveItem_in split: option.splits prod.splits sum.splits dest!: approve_Inr)
qed

lemma approveItem_Inl:
  assumes "approveItem r api a' n i (st, tr) = (Inl e, (st', tr'))"
  shows "st' = st \<and>
         ((\<exists>c. e = Rejection c) \<longrightarrow>
            i < length (captureImagesSelected r) \<and>
            (\<exists>a. a' = Some a \<and>
               filter isApproveReject tr' =
                 filter isApproveReject tr @ [approveOrReject a (captureImagesSelected r ! i)])) \<and>
         ((\<forall>c. e \<noteq> Rejection c) \<longrightarrow> tr' = tr)"
proof (cases "i < length (captureImagesSelected r)")
  case False
  with assms show ?thesis by (auto simp: approveItem_out)
next
  case True
  with assms show ?thesis
    by (auto simp: approveItem_in split: option.splits prod.splits sum.splits dest!: approve_Inl)
qed

lemma approvePrefix_Inr:
  "approvePrefix r api a' n k (st, tr) = (Inr u, (st', tr')) \<Longrightarrow>
     k \<le> length (captureImagesSelected r) \<and>
     st' = (if k = 0 then st else st\<lparr>approveAllComplete := js_times 100 (js_divide (of_nat k) (of_nat n))\<rparr>) \<and>
     (\<forall>a. a' = Some a \<longrightarrow>
        tr' = tr @ concat (map (itemCalls a) (take k (captureImagesSelected r))))"
proof (induction k arbitrary: st' tr' u)
  case 0
  then show ?case by simp
next
  case (Suc k)
  from Suc.prems obtain st1 tr1 where
    p: "approvePrefix r api a' n k (st, tr) = (Inr (), (st1, tr1))" and
    i: "approveItem r api a' n k (st1, tr1) = (Inr u, (st', tr'))"
    by (auto split: prod.splits sum.splits)
  note ih = Suc.IH [OF p] and it = approveItem_Inr [OF i]
  from it have k: "k < length (captureImagesSelected r)" by simp
  have "st' = st\<lparr>approveAllComplete := js_times 100 (js_divide (of_nat (Suc k)) (of_nat n))\<rparr>"
    using ih it by (cases "k = 0") simp_all
  moreover have "tr' = tr @ concat (map (itemCalls a) (take (Suc k) (captureImagesSelected r)))"
    if "a' = Some a" for a
    using ih it that k by (simp add: take_Suc_conv_app_nth)
  ultimately show ?case using k by simp
qed

lemma approveLoop_prefix:
  "k \<le> n \<Longrightarrow>
     approveLoop r api a' n 0 w =
       (case approvePrefix r api a' n k w of
          (Inl e, w1) \<Rightarrow> (Inl e, w1)
        | (Inr u, w1) \<Rightarrow> approveLoop r api a' n k w1)"
proof (induction k)
  case 0
  then show ?case by simp
next
  case (Suc k)
  then have k: "k < n" and ih: "approveLoop r api a' n 0 w =
       (case approvePrefix r api a' n k w of
          (Inl e, w1) \<Rightarrow> (Inl e, w1)
        | (Inr u, w1) \<Rightarrow> approveLoop r api a' n k w1)"
    by simp_all
  obtain res w1 where p: "approvePrefix r api a' n k w = (res, w1)"
    by (cases "approvePrefix r api a' n k w")
  show ?case
  proof (cases res)
    case (Inl e)
    with p ih show ?thesis by simp
  next
    case (Inr u)
    with p ih k show ?thesis
      by (simp add: approveLoop.simps [of r api a' n k w1])
  qed
qed

lemma approveLoop_eq_prefix: "approveLoop r api a' n 0 w = approvePrefix r api a' n n w"
proof -
  have "approveLoop r api a' n n w1 = (Inr (), w1)" for w1
    by (simp add: approveLoop.simps [of r api a' n n w1])
  then show ?thesis
    using approveLoop_prefix [of n n r api a' w]
    by (auto split: prod.splits sum.splits)
qed

text \<open>
  Every round ends without a throw when an action is present, every selected id is on a loaded
  capture and the server rejects no call.
\<close>

lemma approve_resolved:
  "\<forall>h c. api h c \<noteq> Rejected \<Longrightarrow> approve api (Some a) i tr = (Inr True, tr @ itemCalls a i)"
  by (simp add: approve_def itemCalls_def Let_def split: option.splits)

lemma approvePrefix_completes:
  assumes api: "\<forall>h c. api h c \<noteq> Rejected"
      and sel: "set (captureImagesSelected r) \<subseteq> id_of ` set (captureImages r)"
  shows "k \<le> length (captureImagesSelected r) \<Longrightarrow>
           fst (approvePrefix r api (Some a) n k w) = Inr ()"
proof (induction k)
  case 0
  then show ?case by simp
next
  case (Suc k)
  then have k: "k < length (captureImagesSelected r)" by simp
  with Suc obtain st1 tr1 where p: "approvePrefix r api (Some a) n k w = (Inr (), (st1, tr1))"
    by (cases "approvePrefix r api (Some a) n k w") auto
  from k sel have "captureImagesSelected r ! k \<in> id_of ` set (captureImages r)"
    using nth_mem by blast
  from lookup_found [OF this, of None] obtain ci where
    "foldl (\<lambda>a c. if id_of c = captureImagesSelected r ! k then Some c else a) None
       (captureImages r) = Some ci"
    by blast
  with k p show ?case
    by (simp add: approveItem_in approve_resolved [OF api])
qed

lemma approveLoop_completes:
  assumes "\<forall>h c. api h c \<noteq> Rejected"
      and "set (captureImagesSelected r) \<subseteq> id_of ` set (captureImages r)"
  shows "fst (approveLoop r api (Some a) (length (captureImagesSelected r)) 0 w) = Inr ()"
  using approvePrefix_completes [OF assms, of "length (captureImagesSelected r)"]
  by (simp add: approveLoop_eq_prefix)

text \<open>A selected id that is on no loaded capture ends its round with a throw before any call.\<close>

lemma approveItem_stale:
  assumes "i < length (captureImagesSelected r)"
      and "captureImagesSelected r ! i \<notin> id_of ` set (captureImages r)"
  shows "approveItem r api a' n i (st, tr) = (Inl TypeError, (st, tr))"
proof -
  have "foldl (\<lambda>a c. if id_of c = captureImagesSelected r ! i then Some c else a) None
          (captureImages r) = None"
  proof (cases "foldl (\<lambda>a c. if id_of c = captureImagesSelected r ! i then Some c else a) None
          (captureImages r)")
    case None
    then show ?thesis .
  next
    case (Some ci)
    from lookup_Some [OF Some] have "captureImagesSelected r ! i \<in> id_of ` set (captureImages r)"
      by force
    with assms(2) show ?thesis by simp
  qed
  with assms(1) show ?thesis by (simp add: approveItem_in)
qed

lemma loadCaptureImages_Inr:
  "loadCaptureImages r api (st, tr) = (Inr b, (st', tr')) \<Longrightarrow>
     (isLoading r \<and> st' = st \<and> tr' = tr) \<or>
     (\<not> isLoading r \<and> (\<exists>xs. st' = st\<lparr>isLoading := True, captureImages := xs, isLoading := False\<rparr>) \<and>
        tr' = tr @ [GetCaptureImages (pageSize r * currentPage r) (pageSize r) (filter_of r)])"
  by (auto simp: loadCaptureImages_def Let_def split: if_splits response.splits)

subsection \<open>Plain click\<close>

text \<open>
  C10. A plain click (no shift, cmd or ctrl) makes the clicked id the only selected id and
  the anchor, whatever the working set holds: \<open>clickCapture\<close> does not look at
  \<open>captureImages\<close> on this branch, so an id that is on no loaded capture is accepted.
\<close>

theorem clickCapture_plain:
  "clickCapture r \<lparr>captureId = k, isShift = False, isCmd = False, isCtrl = False\<rparr> st =
     st\<lparr>captureImagesSelected := [k], captureImageAnchor := Some k\<rparr>"
  by (simp add: clickCapture_def)

theorem clickCapture_plain_witness:
  "captureImagesSelected
     (clickCapture page5 \<lparr>captureId = 9, isShift = False, isCmd = False, isCtrl = False\<rparr> page5) = [9] \<and>
   captureImageAnchor
     (clickCapture page5 \<lparr>captureId = 9, isShift = False, isCmd = False, isCtrl = False\<rparr> page5) = Some 9 \<and>
   9 \<notin> id_of ` set (captureImages page5)"
  using clickCapture_plain [of page5 9 page5] by (simp add: page5_def img_def)

subsection \<open>Batch approve\<close>

text \<open>
  C1. Whenever every round of the loop of \<open>approveAll\<close> ends without a throw (no call for
  an item fails) and the handler runs to its end (the reload after the loop does not throw), the
  call returns \<open>true\<close>; the undo list is then the captures of the working set of the render
  whose id was selected in that render, the selection is empty with no anchor, the processing flag
  is false, the percentage is 0 and the count is marked invalid. The loading flag is false too.
\<close>

theorem approveAll_success:
  assumes items: "approveLoop r api a' (length (captureImagesSelected r)) 0
                    (st\<lparr>isLoading := True, isApproveAllProcessing := True\<rparr>, tr) = (Inr (), w2)"
      and run: "approveAll r api a' (st, tr) = (res, (st', tr'))"
      and completes: "\<forall>e. res \<noteq> Inl e"
  shows "res = Inr True \<and>
         captureImagesUndo st' =
           filter (\<lambda>c. id_of c \<in> set (captureImagesSelected r)) (captureImages r) \<and>
         captureImagesSelected st' = [] \<and> captureImageAnchor st' = None \<and>
         \<not> isApproveAllProcessing st' \<and> approveAllComplete st' = 0 \<and>
         invalidateCaptureCount st' \<and> \<not> isLoading st'"
proof -
  obtain st2 tr2 where w2: "w2 = (st2, tr2)" by (cases w2)
  let ?undo = "filter (\<lambda>capture. list_ex (\<lambda>i. i = id_of capture) (captureImagesSelected r))
                 (captureImages r)"
  have undo: "?undo = filter (\<lambda>c. id_of c \<in> set (captureImagesSelected r)) (captureImages r)"
    by (simp add: list_ex_iff)
  obtain b w3 where l: "loadCaptureImages r api
      (st2\<lparr>captureImagesUndo := ?undo, isLoading := False\<rparr>, tr2) = (b, w3)"
    by (cases "loadCaptureImages r api (st2\<lparr>captureImagesUndo := ?undo, isLoading := False\<rparr>, tr2)")
  show ?thesis
  proof (cases b)
    case (Inl e)
    with items w2 l run completes show ?thesis by (auto simp: approveAll_def)
  next
    case (Inr v)
    obtain st3 tr3 where w3: "w3 = (st3, tr3)" by (cases w3)
    from loadCaptureImages_Inr [OF l [unfolded Inr w3]]
    have "captureImagesUndo st3 = ?undo \<and> \<not> isLoading st3" by auto
    moreover from items w2 l run Inr w3
    have "res = Inr True \<and> st' = resetSelection
            (st3\<lparr>isApproveAllProcessing := False, approveAllComplete := 0,
                  invalidateCaptureCount := True\<rparr>)"
      by (simp add: approveAll_def)
    ultimately show ?thesis using undo by (simp add: resetSelection_def)
  qed
qed

theorem approveAll_success_witness:
  "fst (approveLoop page5 resolving (Some approving) (length (captureImagesSelected page5)) 0
          (page5\<lparr>isLoading := True, isApproveAllProcessing := True\<rparr>, [])) = Inr () \<and>
   fst (approveAll page5 resolving (Some approving) (page5, [])) = Inr True \<and>
   captureImagesUndo (fst (snd (approveAll page5 resolving (Some approving) (page5, [])))) =
     [img 2, img 4, img 5] \<and>
   captureImagesSelected (fst (snd (approveAll page5 resolving (Some approving) (page5, [])))) = [] \<and>
   captureImageAnchor (fst (snd (approveAll page5 resolving (Some approving) (page5, [])))) = None"
proof -
  let ?loop = "approveLoop page5 resolving (Some approving) (length (captureImagesSelected page5)) 0
                 (page5\<lparr>isLoading := True, isApproveAllProcessing := True\<rparr>, [])"
  let ?run = "approveAll page5 resolving (Some approving) (page5, [])"
  have l: "fst ?loop = Inr ()" by code_simp
  then have items: "?loop = (Inr (), snd ?loop)" by (simp add: prod_eq_iff)
  have run: "?run = (fst ?run, (fst (snd ?run), snd (snd ?run)))" by simp
  have "fst ?run = Inr True" by code_simp
  then have ok: "\<forall>e. fst ?run \<noteq> Inl e" by simp
  have sel: "filter (\<lambda>c. id_of c \<in> set (captureImagesSelected page5)) (captureImages page5) =
               [img 2, img 4, img 5]"
    by (simp add: page5_def img_def)
  from approveAll_success [OF items run ok] l sel show ?thesis by simp
qed

lemma filter_itemCalls:
  "filter isApproveReject (concat (map (itemCalls a) xs)) = map (approveOrReject a) xs"
  by (induction xs) (auto simp: itemCalls_def split: option.splits)

lemma loadCaptureImages_trace:
  "snd (snd (loadCaptureImages r api (st, tr))) = tr \<or>
   snd (snd (loadCaptureImages r api (st, tr))) =
     tr @ [GetCaptureImages (pageSize r * currentPage r) (pageSize r) (filter_of r)]"
  by (simp add: loadCaptureImages_def Let_def split: response.splits)

lemma approveAll_trace:
  assumes "approveLoop r api a' (length (captureImagesSelected r)) 0
             (st\<lparr>isLoading := True, isApproveAllProcessing := True\<rparr>, tr) = (res, (st2, tr2))"
  shows "snd (snd (approveAll r api a' (st, tr))) = tr2 \<or>
         snd (snd (approveAll r api a' (st, tr))) =
           tr2 @ [GetCaptureImages (pageSize r * currentPage r) (pageSize r) (filter_of r)]"
proof (cases res)
  case (Inl e)
  with assms show ?thesis by (simp add: approveAll_def)
next
  case (Inr u)
  let ?w = "(st2\<lparr>captureImagesUndo :=
                    filter (\<lambda>capture. list_ex (\<lambda>i. i = id_of capture) (captureImagesSelected r))
                      (captureImages r),
                  isLoading := False\<rparr>, tr2)"
  have "snd (snd (approveAll r api a' (st, tr))) = snd (snd (loadCaptureImages r api ?w))"
    using assms Inr by (simp add: approveAll_def split: prod.splits sum.splits)
  then show ?thesis using loadCaptureImages_trace [of r api _ tr2] by simp
qed

lemma approveAll_failed:
  assumes "approveLoop r api a' (length (captureImagesSelected r)) 0
             (st\<lparr>isLoading := True, isApproveAllProcessing := True\<rparr>, tr) = (Inl e, (st2, tr2))"
  shows "approveAll r api a' (st, tr) =
           (Inr False, (st2\<lparr>isLoading := False, isApproveAllProcessing := False\<rparr>, tr2))"
  using assms by (simp add: approveAll_def)

lemma approveLoop_failed:
  assumes k: "k < n"
      and p: "approvePrefix r api a' n k w = (Inr (), w1)"
      and i: "approveItem r api a' n k w1 = (Inl e, w2)"
  shows "approveLoop r api a' n 0 w = (Inl e, w2)"
  using approveLoop_prefix [of "Suc k" n r api a' w] k p i by simp

text \<open>
  C2. With an action present: when every round of the loop of \<open>approveAll\<close> ends without a
  throw, the approve or reject calls of the whole run are one per selected id, in the order of the
  selection. When the rounds before round \<open>k\<close> (counted from 0) end without a throw and a
  call of round \<open>k\<close> is rejected, the run made exactly \<open>k + 1\<close> approve or reject calls,
  those of the first \<open>k + 1\<close> selected ids, no later round runs, the loading and processing
  flags are false, the call returns \<open>false\<close>, and the undo list, the count flag and the
  working set are the ones before the call: nothing is rolled back.
\<close>

theorem approveAll_calls:
  "(approveLoop r api (Some a) (length (captureImagesSelected r)) 0
        (st\<lparr>isLoading := True, isApproveAllProcessing := True\<rparr>, tr) = (Inr (), w)
      \<longrightarrow> filter isApproveReject (snd (snd (approveAll r api (Some a) (st, tr)))) =
            filter isApproveReject tr @ map (approveOrReject a) (captureImagesSelected r)) \<and>
   (k < length (captureImagesSelected r) \<and>
    approvePrefix r api (Some a) (length (captureImagesSelected r)) k
        (st\<lparr>isLoading := True, isApproveAllProcessing := True\<rparr>, tr) = (Inr (), wk) \<and>
    approveItem r api (Some a) (length (captureImagesSelected r)) k wk =
        (Inl (Rejection c), (sf, tf))
      \<longrightarrow> approveAll r api (Some a) (st, tr) =
            (Inr False, (sf\<lparr>isLoading := False, isApproveAllProcessing := False\<rparr>, tf)) \<and>
          filter isApproveReject tf =
            filter isApproveReject tr @ map (approveOrReject a) (take (Suc k) (captureImagesSelected r)) \<and>
          captureImagesUndo sf = captureImagesUndo st \<and>
          invalidateCaptureCount sf = invalidateCaptureCount st \<and>
          captureImages sf = captureImages st)"
proof (intro conjI impI)
  let ?n = "length (captureImagesSelected r)"
  let ?st1 = "st\<lparr>isLoading := True, isApproveAllProcessing := True\<rparr>"
  assume l: "approveLoop r api (Some a) ?n 0 (?st1, tr) = (Inr (), w)"
  obtain st3 tr3 where w: "w = (st3, tr3)" by (cases w)
  from l w have "approvePrefix r api (Some a) ?n ?n (?st1, tr) = (Inr (), (st3, tr3))"
    by (simp add: approveLoop_eq_prefix)
  from approvePrefix_Inr [OF this]
  have "tr3 = tr @ concat (map (itemCalls a) (captureImagesSelected r))" by simp
  then have "filter isApproveReject tr3 =
               filter isApproveReject tr @ map (approveOrReject a) (captureImagesSelected r)"
    by (simp add: filter_itemCalls)
  moreover from approveAll_trace [OF l [unfolded w]]
  have "filter isApproveReject (snd (snd (approveAll r api (Some a) (st, tr)))) =
          filter isApproveReject tr3"
    by auto
  ultimately show "filter isApproveReject (snd (snd (approveAll r api (Some a) (st, tr)))) =
            filter isApproveReject tr @ map (approveOrReject a) (captureImagesSelected r)"
    by simp
next
  let ?n = "length (captureImagesSelected r)"
  let ?st1 = "st\<lparr>isLoading := True, isApproveAllProcessing := True\<rparr>"
  assume h: "k < ?n \<and> approvePrefix r api (Some a) ?n k (?st1, tr) = (Inr (), wk) \<and>
             approveItem r api (Some a) ?n k wk = (Inl (Rejection c), (sf, tf))"
  obtain st1' tr1 where w1: "wk = (st1', tr1)" by (cases wk)
  from h w1 have p: "approvePrefix r api (Some a) ?n k (?st1, tr) = (Inr (), (st1', tr1))"
    and i: "approveItem r api (Some a) ?n k (st1', tr1) = (Inl (Rejection c), (sf, tf))"
    and k: "k < ?n"
    by simp_all
  note pf = approvePrefix_Inr [OF p] and it = approveItem_Inl [OF i]
  from approveLoop_failed [OF k p i]
  show "approveAll r api (Some a) (st, tr) =
          (Inr False, (sf\<lparr>isLoading := False, isApproveAllProcessing := False\<rparr>, tf))"
    by (rule approveAll_failed)
  from pf have "filter isApproveReject tr1 =
      filter isApproveReject tr @ map (approveOrReject a) (take k (captureImagesSelected r))"
    by (simp add: filter_itemCalls)
  with it k show "filter isApproveReject tf =
      filter isApproveReject tr @ map (approveOrReject a) (take (Suc k) (captureImagesSelected r))"
    by (simp add: take_Suc_conv_app_nth)
  from pf it have st2: "sf = ?st1 \<or> (\<exists>x. sf = ?st1\<lparr>approveAllComplete := x\<rparr>)"
    by (cases "k = 0") auto
  from st2 show "captureImagesUndo sf = captureImagesUndo st" by auto
  from st2 show "invalidateCaptureCount sf = invalidateCaptureCount st" by auto
  from st2 show "captureImages sf = captureImages st" by auto
qed

theorem approveAll_calls_witness:
  "filter isApproveReject (snd (snd (approveAll page5 resolving (Some approving) (page5, [])))) =
     map (approveOrReject approving) [2, 4, 5] \<and>
   approveAll page5 (rejecting (approveOrReject approving 4)) (Some approving) (page5, []) =
     (Inr False,
      (page5\<lparr>approveAllComplete := js_times 100 (js_divide 1 3)\<rparr>,
       [approveOrReject approving 2, CreateCaptureTags 2 [''pine''], approveOrReject approving 4]))"
proof -
  let ?n = "length (captureImagesSelected page5)"
  let ?s1 = "page5\<lparr>isLoading := True, isApproveAllProcessing := True\<rparr>"
  let ?bad = "approveOrReject approving 4"
  let ?loop = "approveLoop page5 resolving (Some approving) ?n 0 (?s1, [])"
  let ?pre = "approvePrefix page5 (rejecting ?bad) (Some approving) ?n 1 (?s1, [])"
  let ?item = "approveItem page5 (rejecting ?bad) (Some approving) ?n 1 (snd ?pre)"
  have "fst ?loop = Inr ()" by code_simp
  then have l: "?loop = (Inr (), snd ?loop)" by (simp add: prod_eq_iff)
  have k: "1 < ?n" by (simp add: page5_def)
  have "fst ?pre = Inr ()" by code_simp
  then have p: "?pre = (Inr (), snd ?pre)" by (simp add: prod_eq_iff)
  have "fst ?item = Inl (Rejection ?bad)" by code_simp
  then have i: "?item = (Inl (Rejection ?bad), (fst (snd ?item), snd (snd ?item)))"
    by (simp add: prod_eq_iff)
  have sf: "fst (snd ?item) = page5\<lparr>isLoading := True, isApproveAllProcessing := True,
                                      approveAllComplete := js_times 100 (js_divide 1 3)\<rparr>"
    by code_simp
  have tf: "snd (snd ?item) =
              [approveOrReject approving 2, CreateCaptureTags 2 [''pine''], approveOrReject approving 4]"
    by code_simp
  note A = approveAll_calls [where r = page5 and api = resolving and a = approving and st = page5
      and tr = "[]" and w = "snd ?loop", THEN conjunct1, rule_format, OF l]
  note B = approveAll_calls [where r = page5 and api = "rejecting ?bad" and a = approving
      and st = page5 and tr = "[]" and k = 1 and wk = "snd ?pre" and c = ?bad
      and sf = "fst (snd ?item)" and tf = "snd (snd ?item)", THEN conjunct2, rule_format,
      OF conjI [OF k conjI [OF p i]]]
  from A have "filter isApproveReject (snd (snd (approveAll page5 resolving (Some approving) (page5, [])))) =
     map (approveOrReject approving) [2, 4, 5]"
    by (simp add: page5_def)
  moreover from B [unfolded sf tf]
  have "approveAll page5 (rejecting ?bad) (Some approving) (page5, []) =
     (Inr False,
      (page5\<lparr>approveAllComplete := js_times 100 (js_divide 1 3)\<rparr>,
       [approveOrReject approving 2, CreateCaptureTags 2 [''pine''], approveOrReject approving 4]))"
    by (simp add: page5_def)
  ultimately show ?thesis by simp
qed

subsection \<open>Batch undo\<close>

lemma undoedCaptureImage_undefined:
  "captureImagesUndo r \<noteq> [] \<Longrightarrow>
     undoedCaptureImage r x None st =
       Inr (st\<lparr>captureImages := sort_key id_of (captureImages r @ [hd (captureImagesUndo r)]),
               captureImagesUndo := captureImagesUndo r\<rparr>)"
  by (cases "captureImagesUndo r") (simp_all add: undoedCaptureImage_def foldl_keep)

lemma undoItem_in:
  assumes "i < length (captureImagesUndo r)"
  shows "undoItem r api n i (st, tr) =
           (if api tr (UndoCaptureImage (id_of (captureImagesUndo r ! i))) = Rejected
            then (Inl (Rejection (UndoCaptureImage (id_of (captureImagesUndo r ! i)))),
                  (st, tr @ [UndoCaptureImage (id_of (captureImagesUndo r ! i))]))
            else (Inr (),
                  (st\<lparr>captureImages :=
                         sort_key id_of (captureImages r @ [hd (captureImagesUndo r)]),
                       captureImagesUndo := captureImagesUndo r,
                       approveAllComplete := js_times 100 (js_divide (of_nat (i + 1)) (of_nat n)),
                       invalidateCaptureCount := True\<rparr>,
                   tr @ [UndoCaptureImage (id_of (captureImagesUndo r ! i))])))"
proof -
  from assms have "captureImagesUndo r \<noteq> []" by auto
  with assms show ?thesis
    by (simp add: undoItem_def undoCaptureImage_def undoedCaptureImage_undefined Let_def)
qed

lemma undoItem_out:
  "\<not> i < length (captureImagesUndo r) \<Longrightarrow> undoItem r api n i w = (Inl TypeError, w)"
  by (simp add: undoItem_def)

lemma undoPrefix_Inr:
  "undoPrefix r api n k (st, tr) = (Inr u, (st', tr')) \<Longrightarrow>
     k \<le> length (captureImagesUndo r) \<and>
     tr' = tr @ map (\<lambda>c. UndoCaptureImage (id_of c)) (take k (captureImagesUndo r)) \<and>
     st' = (if k = 0 then st
            else st\<lparr>captureImages :=
                       sort_key id_of (captureImages r @ [hd (captureImagesUndo r)]),
                     captureImagesUndo := captureImagesUndo r,
                     approveAllComplete := js_times 100 (js_divide (of_nat k) (of_nat n)),
                     invalidateCaptureCount := True\<rparr>)"
proof (induction k arbitrary: st' tr' u)
  case 0
  then show ?case by simp
next
  case (Suc k)
  from Suc.prems obtain st1 tr1 where
    p: "undoPrefix r api n k (st, tr) = (Inr (), (st1, tr1))" and
    i: "undoItem r api n k (st1, tr1) = (Inr u, (st', tr'))"
    by (auto split: prod.splits sum.splits)
  have k: "k < length (captureImagesUndo r)"
    using i undoItem_out [of k r api n "(st1, tr1)"] by (cases "k < length (captureImagesUndo r)") auto
  note ih = Suc.IH [OF p]
  from i k have
    tr': "tr' = tr1 @ [UndoCaptureImage (id_of (captureImagesUndo r ! k))]" and
    st': "st' = st1\<lparr>captureImages :=
                       sort_key id_of (captureImages r @ [hd (captureImagesUndo r)]),
                     captureImagesUndo := captureImagesUndo r,
                     approveAllComplete := js_times 100 (js_divide (of_nat (k + 1)) (of_nat n)),
                     invalidateCaptureCount := True\<rparr>"
    by (auto simp: undoItem_in split: if_splits)
  from tr' ih k have "tr' = tr @ map (\<lambda>c. UndoCaptureImage (id_of c))
                                  (take (Suc k) (captureImagesUndo r))"
    by (simp add: take_Suc_conv_app_nth)
  moreover from st' ih have "st' = st\<lparr>captureImages :=
                       sort_key id_of (captureImages r @ [hd (captureImagesUndo r)]),
                     captureImagesUndo := captureImagesUndo r,
                     approveAllComplete := js_times 100 (js_divide (of_nat (Suc k)) (of_nat n)),
                     invalidateCaptureCount := True\<rparr>"
    by (cases "k = 0") simp_all
  ultimately show ?case using k by simp
qed

lemma undoLoop_prefix:
  "k \<le> length (captureImagesUndo r) \<Longrightarrow>
     undoLoop r api n 0 w =
       (case undoPrefix r api n k w of
          (Inl e, w1) \<Rightarrow> (Inl e, w1)
        | (Inr u, w1) \<Rightarrow> undoLoop r api n k w1)"
proof (induction k)
  case 0
  then show ?case by simp
next
  case (Suc k)
  then have k: "k < length (captureImagesUndo r)" and ih: "undoLoop r api n 0 w =
       (case undoPrefix r api n k w of
          (Inl e, w1) \<Rightarrow> (Inl e, w1)
        | (Inr u, w1) \<Rightarrow> undoLoop r api n k w1)"
    by simp_all
  obtain res w1 where p: "undoPrefix r api n k w = (res, w1)"
    by (cases "undoPrefix r api n k w")
  show ?case
  proof (cases res)
    case (Inl e)
    with p ih show ?thesis by simp
  next
    case (Inr u)
    with p ih k show ?thesis
      by (simp add: undoLoop.simps [of r api n k w1])
  qed
qed

lemma undoLoop_eq_prefix:
  "undoLoop r api n 0 w = undoPrefix r api n (length (captureImagesUndo r)) w"
proof -
  have "undoLoop r api n (length (captureImagesUndo r)) w1 = (Inr (), w1)" for w1
    by (simp add: undoLoop.simps [of r api n "length (captureImagesUndo r)" w1])
  then show ?thesis
    using undoLoop_prefix [of "length (captureImagesUndo r)" r api n w]
    by (auto split: prod.splits sum.splits)
qed

lemma undoLoop_failed:
  assumes k: "k < length (captureImagesUndo r)"
      and p: "undoPrefix r api n k w = (Inr (), w1)"
      and i: "undoItem r api n k w1 = (Inl e, w2)"
  shows "undoLoop r api n 0 w = (Inl e, w2)"
  using undoLoop_prefix [of "Suc k" r api n w] k p i by simp

text \<open>The loop of \<open>undoAll\<close> ends without a throw when the server rejects no call.\<close>

lemma undoPrefix_completes:
  assumes api: "\<forall>h c. api h c \<noteq> Rejected"
  shows "k \<le> length (captureImagesUndo r) \<Longrightarrow> fst (undoPrefix r api n k w) = Inr ()"
proof (induction k)
  case 0
  then show ?case by simp
next
  case (Suc k)
  then have k: "k < length (captureImagesUndo r)" by simp
  with Suc obtain st1 tr1 where p: "undoPrefix r api n k w = (Inr (), (st1, tr1))"
    by (cases "undoPrefix r api n k w") auto
  with k api show ?case by (simp add: undoItem_in)
qed

lemma undoLoop_completes:
  assumes "\<forall>h c. api h c \<noteq> Rejected"
  shows "fst (undoLoop r api n 0 w) = Inr ()"
  using undoPrefix_completes [OF assms, of "length (captureImagesUndo r)"]
  by (simp add: undoLoop_eq_prefix)

text \<open>
  What a run of \<open>undoAll\<close> that returns \<open>true\<close> leaves: the working set of the render with
  the first entry of the undo list of the render sorted in, and the undo list of the render.
\<close>

lemma undoAll_restores_first_only:
  assumes ne: "captureImagesUndo r \<noteq> []"
      and ok: "fst (undoAll r api (st, tr)) = Inr True"
  shows "captureImages (fst (snd (undoAll r api (st, tr)))) =
           sort_key id_of (captureImages r @ [hd (captureImagesUndo r)]) \<and>
         captureImagesUndo (fst (snd (undoAll r api (st, tr)))) = captureImagesUndo r"
proof -
  let ?n = "length (captureImagesUndo r)"
  let ?st1 = "st\<lparr>isLoading := True, isApproveAllProcessing := True\<rparr>"
  obtain res s2 t2 where l: "undoLoop r api ?n 0 (?st1, tr) = (res, (s2, t2))"
    by (cases "undoLoop r api ?n 0 (?st1, tr)") auto
  with ok have res: "res = Inr ()" by (cases res) (simp_all add: undoAll_def)
  from l res have "undoPrefix r api ?n ?n (?st1, tr) = (Inr (), (s2, t2))"
    by (simp add: undoLoop_eq_prefix)
  from undoPrefix_Inr [OF this] ne
  have "captureImages s2 = sort_key id_of (captureImages r @ [hd (captureImagesUndo r)]) \<and>
        captureImagesUndo s2 = captureImagesUndo r"
    by simp
  with l res show ?thesis by (simp add: undoAll_def resetSelection_def)
qed

text \<open>
  C5. When the rounds of the loop of \<open>undoAll\<close> before round \<open>k\<close> (counted from 0) end
  without a throw and the undo call of round \<open>k\<close> is rejected, no later entry is processed (the
  calls of the run are the undo calls of the first \<open>k + 1\<close> entries), \<open>undoAll\<close> returns
  \<open>false\<close>, and its \<open>catch\<close> block leaves the loading flag and the processing flag
  \<open>true\<close>. \<open>approveAll\<close>, when its loop throws, returns \<open>false\<close> with both flags
  \<open>false\<close>.
\<close>

theorem undoAll_failure_keeps_flags:
  "(k < length (captureImagesUndo r) \<and>
    undoPrefix r api (length (captureImagesUndo r)) k
        (st\<lparr>isLoading := True, isApproveAllProcessing := True\<rparr>, tr) = (Inr (), wk) \<and>
    undoItem r api (length (captureImagesUndo r)) k wk = (Inl e, (sf, tf))
      \<longrightarrow> undoAll r api (st, tr) =
            (Inr False, (sf\<lparr>isLoading := True, isApproveAllProcessing := True\<rparr>, tf)) \<and>
          isLoading (fst (snd (undoAll r api (st, tr)))) \<and>
          isApproveAllProcessing (fst (snd (undoAll r api (st, tr)))) \<and>
          tf = tr @ map (\<lambda>c. UndoCaptureImage (id_of c)) (take (Suc k) (captureImagesUndo r)) \<and>
          e = Rejection (UndoCaptureImage (id_of (captureImagesUndo r ! k)))) \<and>
   (approveLoop r api a' (length (captureImagesSelected r)) 0
        (st\<lparr>isLoading := True, isApproveAllProcessing := True\<rparr>, tr) = (Inl e', (sf', tf'))
      \<longrightarrow> approveAll r api a' (st, tr) =
            (Inr False, (sf'\<lparr>isLoading := False, isApproveAllProcessing := False\<rparr>, tf')) \<and>
          \<not> isLoading (fst (snd (approveAll r api a' (st, tr)))) \<and>
          \<not> isApproveAllProcessing (fst (snd (approveAll r api a' (st, tr)))))"
proof (intro conjI impI)
  let ?n = "length (captureImagesUndo r)"
  let ?st1 = "st\<lparr>isLoading := True, isApproveAllProcessing := True\<rparr>"
  assume h: "k < ?n \<and> undoPrefix r api ?n k (?st1, tr) = (Inr (), wk) \<and>
             undoItem r api ?n k wk = (Inl e, (sf, tf))"
  obtain s1 t1 where wk: "wk = (s1, t1)" by (cases wk)
  from h wk have k: "k < ?n"
    and p: "undoPrefix r api ?n k (?st1, tr) = (Inr (), (s1, t1))"
    and i: "undoItem r api ?n k (s1, t1) = (Inl e, (sf, tf))"
    by simp_all
  from undoLoop_failed [OF k p i]
  show run: "undoAll r api (st, tr) =
          (Inr False, (sf\<lparr>isLoading := True, isApproveAllProcessing := True\<rparr>, tf))"
    by (simp add: undoAll_def)
  from run show "isLoading (fst (snd (undoAll r api (st, tr))))" by simp
  from run show "isApproveAllProcessing (fst (snd (undoAll r api (st, tr))))" by simp
  from i k have "tf = t1 @ [UndoCaptureImage (id_of (captureImagesUndo r ! k))]"
    and e: "e = Rejection (UndoCaptureImage (id_of (captureImagesUndo r ! k)))"
    by (auto simp: undoItem_in split: if_splits)
  with undoPrefix_Inr [OF p] k
  show "tf = tr @ map (\<lambda>c. UndoCaptureImage (id_of c)) (take (Suc k) (captureImagesUndo r))"
    by (simp add: take_Suc_conv_app_nth)
  from e show "e = Rejection (UndoCaptureImage (id_of (captureImagesUndo r ! k)))" .
next
  assume l: "approveLoop r api a' (length (captureImagesSelected r)) 0
        (st\<lparr>isLoading := True, isApproveAllProcessing := True\<rparr>, tr) = (Inl e', (sf', tf'))"
  from approveAll_failed [OF l]
  show run: "approveAll r api a' (st, tr) =
            (Inr False, (sf'\<lparr>isLoading := False, isApproveAllProcessing := False\<rparr>, tf'))" .
  from run show "\<not> isLoading (fst (snd (approveAll r api a' (st, tr))))" by simp
  from run show "\<not> isApproveAllProcessing (fst (snd (approveAll r api a' (st, tr))))" by simp
qed

theorem undoAll_failure_keeps_flags_witness:
  "undoAll afterApprove (rejecting (UndoCaptureImage 2)) (afterApprove, []) =
     (Inr False,
      (afterApprove\<lparr>captureImages := [img 1, img 3], isLoading := True,
                     isApproveAllProcessing := True, approveAllComplete := 50,
                     invalidateCaptureCount := True\<rparr>,
       [UndoCaptureImage 1, UndoCaptureImage 2])) \<and>
   isLoading (fst (snd (undoAll afterApprove (rejecting (UndoCaptureImage 2)) (afterApprove, [])))) \<and>
   isApproveAllProcessing
     (fst (snd (undoAll afterApprove (rejecting (UndoCaptureImage 2)) (afterApprove, [])))) \<and>
   \<not> isLoading (fst (snd (approveAll page5 (rejecting (approveOrReject approving 4))
                               (Some approving) (page5, [])))) \<and>
   \<not> isApproveAllProcessing (fst (snd (approveAll page5 (rejecting (approveOrReject approving 4))
                               (Some approving) (page5, []))))"
proof -
  let ?n = "length (captureImagesUndo afterApprove)"
  let ?s1 = "afterApprove\<lparr>isLoading := True, isApproveAllProcessing := True\<rparr>"
  let ?api = "rejecting (UndoCaptureImage 2)"
  let ?pre = "undoPrefix afterApprove ?api ?n 1 (?s1, [])"
  let ?item = "undoItem afterApprove ?api ?n 1 (snd ?pre)"
  let ?bad = "approveOrReject approving 4"
  let ?loop = "approveLoop page5 (rejecting ?bad) (Some approving)
                 (length (captureImagesSelected page5)) 0
                 (page5\<lparr>isLoading := True, isApproveAllProcessing := True\<rparr>, [])"
  have k: "1 < ?n" by (simp add: afterApprove_def)
  have "fst ?pre = Inr ()" by code_simp
  then have p: "?pre = (Inr (), snd ?pre)" by (simp add: prod_eq_iff)
  have "fst ?item = Inl (Rejection (UndoCaptureImage 2))" by code_simp
  then have i: "?item = (Inl (Rejection (UndoCaptureImage 2)), (fst (snd ?item), snd (snd ?item)))"
    by (simp add: prod_eq_iff)
  have sf: "fst (snd ?item) =
              afterApprove\<lparr>captureImages := [img 1, img 3], isLoading := True,
                     isApproveAllProcessing := True, approveAllComplete := 50,
                     invalidateCaptureCount := True\<rparr>"
    by code_simp
  have tf: "snd (snd ?item) = [UndoCaptureImage 1, UndoCaptureImage 2]"
    by code_simp
  have "fst ?loop = Inl (Rejection ?bad)" by code_simp
  then have l: "?loop = (Inl (Rejection ?bad), (fst (snd ?loop), snd (snd ?loop)))"
    by (simp add: prod_eq_iff)
  note U = undoAll_failure_keeps_flags [where r = afterApprove and api = ?api and st = afterApprove
      and tr = "[]" and k = 1 and wk = "snd ?pre" and e = "Rejection (UndoCaptureImage 2)"
      and sf = "fst (snd ?item)" and tf = "snd (snd ?item)", THEN conjunct1, rule_format,
      OF conjI [OF k conjI [OF p i]]]
  note A = undoAll_failure_keeps_flags [where r = page5 and api = "rejecting ?bad"
      and a' = "Some approving" and st = page5 and tr = "[]" and e' = "Rejection ?bad"
      and sf' = "fst (snd ?loop)" and tf' = "snd (snd ?loop)", THEN conjunct2, rule_format, OF l]
  from U [unfolded sf tf] A show ?thesis by simp
qed

subsection \<open>Batch undo on an example\<close>

text \<open>
  C4 does not hold of the code. \<open>undoCaptureImage\<close> passes the id as the only argument of
  \<open>undoedCaptureImage(state, captureId)\<close>, so \<open>captureId\<close> is undefined there: the
  \<open>reduce\<close> keeps the first entry of the undo list and the \<open>filter\<close> removes nothing, and
  both read the lists of the render, not what earlier rounds wrote. With the working set
  \<open>[3]\<close>, the undo list \<open>[1, 2]\<close> and a server that resolves every call, \<open>undoAll\<close> returns
  \<open>true\<close> with the working set \<open>[1, 3]\<close> and the undo list still \<open>[1, 2]\<close>: capture 2 is
  not put back and the undo list is not emptied.
\<close>

theorem undoAll_leaves_undo_list:
  "undoAll afterApprove resolving (afterApprove, []) =
     (Inr True,
      (afterApprove\<lparr>captureImages := [img 1, img 3], invalidateCaptureCount := True\<rparr>,
       [UndoCaptureImage 1, UndoCaptureImage 2])) \<and>
   map id_of (captureImages afterApprove) = [3] \<and>
   map id_of (captureImagesUndo afterApprove) = [1, 2] \<and>
   map id_of (captureImages (fst (snd (undoAll afterApprove resolving (afterApprove, []))))) =
     [1, 3] \<and>
   map id_of (captureImagesUndo (fst (snd (undoAll afterApprove resolving (afterApprove, []))))) =
     [1, 2]"
  by code_simp

subsection \<open>Progress of a batch\<close>

text \<open>Rounding to the nearest double is monotone, exact at 0, 1 and 100, and off by at most one part in \<open>2 ^ 53\<close>.\<close>

lemma bitlen_rat_bounds:
  assumes "0 < (p::int)"
  shows "(2::rat) powi (bitlen p - 1) \<le> of_int p \<and> (of_int p :: rat) < 2 powi bitlen p"
proof -
  from bitlen_bounds [OF assms]
  have l: "2 ^ nat (bitlen p - 1) \<le> p" and u: "p < 2 ^ nat (bitlen p)" by simp_all
  from assms have b: "1 \<le> bitlen p" by (simp add: bitlen_ge_iff_power)
  from l have "(of_int (2 ^ nat (bitlen p - 1)) :: rat) \<le> of_int p" by (rule of_int_le_iff [THEN iffD2])
  moreover from u have "(of_int p :: rat) < of_int (2 ^ nat (bitlen p))"
    by (rule of_int_less_iff [THEN iffD2])
  ultimately show ?thesis using b by (simp add: power_int_def)
qed


lemma expo_bounds:
  assumes "0 < x"
  shows "2 powi expo x \<le> x \<and> x < 2 powi (expo x + 1)"
proof -
  obtain p q where pq: "quotient_of x = (p, q)" by (cases "quotient_of x")
  then have x: "x = of_int p / of_int q" and q: "0 < q"
    by (simp_all add: quotient_of_div quotient_of_denom_pos)
  from x q assms have p: "0 < p" by (simp add: zero_less_divide_iff)
  define e0 where "e0 = bitlen p - bitlen q"
  note bp = bitlen_rat_bounds [OF p] and bq = bitlen_rat_bounds [OF q]
  have q': "(0::rat) < of_int q" using q by simp
  have "(2::rat) powi (e0 + 1) * 2 powi (bitlen q - 1) = 2 powi bitlen p"
    unfolding e0_def by (simp add: power_int_add [symmetric])
  moreover have "(2::rat) powi (e0 + 1) * 2 powi (bitlen q - 1) \<le> 2 powi (e0 + 1) * of_int q"
    using bq by (simp add: mult_left_mono)
  ultimately have "of_int p < (2::rat) powi (e0 + 1) * of_int q" using bp by simp
  then have up: "x < 2 powi (e0 + 1)" unfolding x using q' by (simp add: pos_divide_less_eq)
  have "(2::rat) powi (e0 - 1) * 2 powi bitlen q = 2 powi (bitlen p - 1)"
    unfolding e0_def by (simp add: power_int_add [symmetric])
  moreover have "(2::rat) powi (e0 - 1) * of_int q < 2 powi (e0 - 1) * 2 powi bitlen q"
    using bq by (simp add: mult_strict_left_mono)
  ultimately have "(2::rat) powi (e0 - 1) * of_int q < of_int p" using bp by simp
  then have lo: "2 powi (e0 - 1) < x" unfolding x using q' by (simp add: pos_less_divide_eq)
  have e: "expo x = (if 2 powi e0 \<le> x then e0 else e0 - 1)"
    by (simp add: expo_def pq e0_def)
  show ?thesis
  proof (cases "2 powi e0 \<le> x")
    case True
    with e up show ?thesis by simp
  next
    case False
    with e lo show ?thesis by simp
  qed
qed

lemma roundEven_cases: "roundEven q = \<lfloor>q\<rfloor> \<or> roundEven q = \<lfloor>q\<rfloor> + 1"
  by (simp add: roundEven_def Let_def)

lemma roundEven_mono:
  assumes "q \<le> q'"
  shows "roundEven q \<le> roundEven q'"
proof (cases "\<lfloor>q\<rfloor> = \<lfloor>q'\<rfloor>")
  case True
  with assms show ?thesis by (auto simp: roundEven_def Let_def)
next
  case False
  with assms have "\<lfloor>q\<rfloor> + 1 \<le> \<lfloor>q'\<rfloor>" using floor_mono [OF assms] by simp
  with roundEven_cases [of q] roundEven_cases [of q'] show ?thesis by auto
qed

lemma roundEven_of_int [simp]: "roundEven (of_int m) = m"
  by (simp add: roundEven_def)

lemma roundEven_le: "q \<le> of_int m \<Longrightarrow> roundEven q \<le> m"
  using roundEven_mono [of q "of_int m"] by simp

lemma roundEven_ge: "of_int m \<le> q \<Longrightarrow> m \<le> roundEven q"
  using roundEven_mono [of "of_int m" q] by simp

lemma roundEven_error: "\<bar>of_int (roundEven q) - q\<bar> \<le> 1 / 2"
proof -
  define d where "d = q - of_int \<lfloor>q\<rfloor>"
  have d: "0 \<le> d" "d < 1" unfolding d_def by linarith+
  have q: "q = of_int \<lfloor>q\<rfloor> + d" unfolding d_def by simp
  have r: "roundEven q = (if d < 1 / 2 then \<lfloor>q\<rfloor> else if 1 / 2 < d then \<lfloor>q\<rfloor> + 1
                          else if even \<lfloor>q\<rfloor> then \<lfloor>q\<rfloor> else \<lfloor>q\<rfloor> + 1)"
    unfolding d_def by (simp add: roundEven_def Let_def)
  have "of_int (roundEven q) - q = - d \<or> of_int (roundEven q) - q = 1 - d"
    using r by (subst (2 4) q) auto
  moreover have "of_int (roundEven q) - q = - d \<Longrightarrow> d \<le> 1 / 2"
    using r d by (subst (asm) (2) q) (auto split: if_splits)
  moreover have "of_int (roundEven q) - q = 1 - d \<Longrightarrow> 1 / 2 \<le> d"
    using r d by (subst (asm) (2) q) (auto split: if_splits)
  ultimately show ?thesis using d by (auto simp: abs_if)
qed

lemma double_pos:
  assumes "0 < x"
  shows "double x = of_int (roundEven (x / 2 powi (expo x - 52))) * 2 powi (expo x - 52)"
  using assms by (simp add: double_def Let_def)

lemma double_nonneg: "0 \<le> x \<Longrightarrow> 0 \<le> double x"
proof (cases "x = 0")
  case True
  then show ?thesis by (simp add: double_def)
next
  case False
  assume "0 \<le> x"
  with False have x: "0 < x" by simp
  have "(0::rat) \<le> x / 2 powi (expo x - 52)" using x by simp
  then have "(of_int 0 :: rat) \<le> x / 2 powi (expo x - 52)" by simp
  from roundEven_ge [OF this] show ?thesis by (simp add: double_pos [OF x])
qed


lemma two_powi_add: "(2::rat) powi (a + b) = 2 powi a * 2 powi b"
  by (simp add: power_int_add)

lemma expo_mono:
  assumes "0 < x" "x \<le> y"
  shows "expo x \<le> expo y"
proof (rule ccontr)
  assume "\<not> expo x \<le> expo y"
  then have "expo y + 1 \<le> expo x" by simp
  then have "(2::rat) powi (expo y + 1) \<le> 2 powi expo x" by (simp add: power_int_increasing)
  moreover from assms have "0 < y" by simp
  note expo_bounds [OF assms(1)] expo_bounds [OF this]
  ultimately show False using assms(2) by linarith
qed

lemma double_mono:
  assumes "0 \<le> x" "x \<le> y"
  shows "double x \<le> double y"
proof (cases "x = 0")
  case True
  with assms double_nonneg [of y] show ?thesis by (simp add: double_def)
next
  case False
  with assms have x: "0 < x" and y: "0 < y" by simp_all
  define ux :: rat where "ux = 2 powi (expo x - 52)"
  define uy :: rat where "uy = 2 powi (expo y - 52)"
  have ux: "0 < ux" and uy: "0 < uy" unfolding ux_def uy_def by (simp_all add: zero_less_power_int)
  have dx: "double x = of_int (roundEven (x / ux)) * ux" unfolding ux_def by (rule double_pos [OF x])
  have dy: "double y = of_int (roundEven (y / uy)) * uy" unfolding uy_def by (rule double_pos [OF y])
  show ?thesis
  proof (cases "expo x = expo y")
    case True
    then have u: "ux = uy" unfolding ux_def uy_def by simp
    have "x / uy \<le> y / uy" using assms uy by (simp add: divide_right_mono)
    then have "roundEven (x / uy) \<le> roundEven (y / uy)" by (rule roundEven_mono)
    then have "(of_int (roundEven (x / uy)) :: rat) \<le> of_int (roundEven (y / uy))" by simp
    then show ?thesis unfolding dx dy u using uy by (simp add: mult_right_mono)
  next
    case False
    with expo_mono [OF x assms(2)] have lt: "expo x + 1 \<le> expo y" by simp
    have hx: "2 powi (expo x + 1) = of_int (2 ^ 53) * ux"
      using two_powi_add [of 53 "expo x - 52"] unfolding ux_def by (simp add: add.commute)
    have hy: "2 powi expo y = of_int (2 ^ 52) * uy"
      using two_powi_add [of 52 "expo y - 52"] unfolding uy_def by simp
    from expo_bounds [OF x] hx have "x \<le> of_int (2 ^ 53) * ux" by simp
    then have "x / ux \<le> of_int (2 ^ 53)" using ux by (simp add: pos_divide_le_eq)
    from roundEven_le [OF this] have "(of_int (roundEven (x / ux)) :: rat) \<le> of_int (2 ^ 53)"
      by (simp only: of_int_le_iff)
    then have a: "double x \<le> 2 powi (expo x + 1)"
      unfolding dx hx using ux by (simp only: mult_right_mono less_imp_le)
    from expo_bounds [OF y] hy have "of_int (2 ^ 52) * uy \<le> y" by simp
    then have "of_int (2 ^ 52) \<le> y / uy" using uy by (simp add: pos_le_divide_eq)
    from roundEven_ge [OF this] have "(of_int (2 ^ 52) :: rat) \<le> of_int (roundEven (y / uy))"
      by (simp only: of_int_le_iff)
    then have b: "2 powi expo y \<le> double y"
      unfolding dy hy using uy by (simp only: mult_right_mono less_imp_le)
    have "(2::rat) powi (expo x + 1) \<le> 2 powi expo y" using lt by (simp add: power_int_increasing)
    with a b show ?thesis by simp
  qed
qed

lemma double_error:
  assumes "0 < x"
  shows "\<bar>double x - x\<bar> \<le> x / 2 ^ 53"
proof -
  define u :: rat where "u = 2 powi (expo x - 52)"
  have u: "0 < u" unfolding u_def by (simp add: zero_less_power_int)
  have dx: "double x = of_int (roundEven (x / u)) * u" unfolding u_def by (rule double_pos [OF assms])
  have "double x - x = (of_int (roundEven (x / u)) - x / u) * u"
    unfolding dx using u by (simp add: field_simps)
  then have "\<bar>double x - x\<bar> = \<bar>of_int (roundEven (x / u)) - x / u\<bar> * u"
    using u by (simp add: abs_mult)
  also have "\<dots> \<le> 1 / 2 * u" using roundEven_error [of "x / u"] u by (simp only: mult_right_mono less_imp_le)
  also have "1 / 2 * u = 2 powi expo x / 2 ^ 53"
  proof -
    have "(2::rat) powi expo x = 2 ^ 52 * u"
      using two_powi_add [of 52 "expo x - 52"] unfolding u_def by simp
    then show ?thesis by simp
  qed
  also have "\<dots> \<le> x / 2 ^ 53" using expo_bounds [OF assms] by (simp add: divide_right_mono)
  finally show ?thesis .
qed

lemma double_0 [simp]: "double 0 = 0"
  by (simp add: double_def)

lemma double_1 [simp]: "double 1 = 1"
  by code_simp

lemma double_100 [simp]: "double 100 = 100"
  by code_simp

lemma percent_props:
  fixes n :: nat
  assumes "0 < j" "j \<le> k" "k \<le> n"
  shows "0 \<le> js_times 100 (js_divide (of_nat j) (of_nat n))"
    and "js_times 100 (js_divide (of_nat j) (of_nat n)) \<le> js_times 100 (js_divide (of_nat k) (of_nat n))"
    and "js_times 100 (js_divide (of_nat k) (of_nat n)) \<le> 100"
    and "k = n \<Longrightarrow> js_times 100 (js_divide (of_nat k) (of_nat n)) = 100"
    and "\<bar>js_times 100 (js_divide (of_nat k) (of_nat n)) - 100 * of_nat k / of_nat n\<bar> \<le> 100 / 2 ^ 52"
proof -
  define x :: rat where "x = of_nat j / of_nat n"
  define y :: rat where "y = of_nat k / of_nat n"
  from assms have n: "(0::rat) < of_nat n" by simp
  have "(of_nat j :: rat) \<le> of_nat k" using assms by simp
  then have xy: "x \<le> y" unfolding x_def y_def using n by (simp add: divide_right_mono)
  have "(of_nat k :: rat) \<le> of_nat n" using assms by simp
  then have y1: "y \<le> 1" unfolding y_def using n by simp
  have x0: "0 < x" unfolding x_def using assms n by simp
  then have y0: "0 < y" using xy by simp
  have dx0: "0 \<le> double x" using x0 by (simp add: double_nonneg)
  have dxy: "double x \<le> double y" using x0 xy by (simp add: double_mono)
  have dy1: "double y \<le> 1" using double_mono [of y 1] y0 y1 by simp
  have a: "0 \<le> double (100 * double x)" using dx0 by (simp add: double_nonneg)
  have b: "double (100 * double x) \<le> double (100 * double y)"
    using dx0 dxy by (simp add: double_mono)
  have c: "double (100 * double y) \<le> 100"
    using double_mono [of "100 * double y" 100] dx0 dxy dy1 by simp
  have d: "double (100 * double y) = 100" if "k = n"
  proof -
    from that n have "y = 1" unfolding y_def by simp
    then show ?thesis by simp
  qed
  have e1: "\<bar>double y - y\<bar> \<le> 1 / 2 ^ 53"
  proof -
    have "y / 2 ^ 53 \<le> 1 / 2 ^ 53" using y1 by (simp add: divide_right_mono)
    with double_error [OF y0] show ?thesis by linarith
  qed
  have e2: "\<bar>double (100 * double y) - 100 * double y\<bar> \<le> 100 / 2 ^ 53"
  proof (cases "double y = 0")
    case True
    then show ?thesis by simp
  next
    case False
    with dx0 dxy have p: "0 < 100 * double y" by simp
    have "100 * double y / 2 ^ 53 \<le> 100 / 2 ^ 53" using dy1 by (simp add: divide_right_mono)
    with double_error [OF p] show ?thesis by linarith
  qed
  have "\<bar>double (100 * double y) - 100 * y\<bar> \<le>
          \<bar>double (100 * double y) - 100 * double y\<bar> + 100 * \<bar>double y - y\<bar>"
    by (simp add: abs_if split: if_splits)
  with e1 e2 have e: "\<bar>double (100 * double y) - 100 * y\<bar> \<le> 100 / 2 ^ 52" by simp
  show "0 \<le> js_times 100 (js_divide (of_nat j) (of_nat n))"
    using a by (simp add: js_times_def js_divide_def x_def)
  show "js_times 100 (js_divide (of_nat j) (of_nat n)) \<le> js_times 100 (js_divide (of_nat k) (of_nat n))"
    using b by (simp add: js_times_def js_divide_def x_def y_def)
  show "js_times 100 (js_divide (of_nat k) (of_nat n)) \<le> 100"
    using c by (simp add: js_times_def js_divide_def y_def)
  show "k = n \<Longrightarrow> js_times 100 (js_divide (of_nat k) (of_nat n)) = 100"
    using d by (simp add: js_times_def js_divide_def y_def)
  show "\<bar>js_times 100 (js_divide (of_nat k) (of_nat n)) - 100 * of_nat k / of_nat n\<bar> \<le> 100 / 2 ^ 52"
    using e by (simp add: js_times_def js_divide_def y_def)
qed

text \<open>
  C8 as stated fails on the equality: the source computes \<open>100 * ((i + 1) / total)\<close> in
  doubles. With three ids selected and the second round failing, the percentage left by the
  first round is the double written \<open>33.33333333333333\<close>, which is neither the rational
  \<open>100 / 3\<close> nor the double that \<open>100 * 1 / 3\<close> evaluates to (\<open>33.333333333333336\<close>).
\<close>

theorem approveAllComplete_rounded:
  "approveAllComplete
     (fst (snd (approveAll page5 (rejecting (approveOrReject approving 4)) (Some approving)
                  (page5, [])))) = 2345624805922133 / 70368744177664 \<and>
   approveAllComplete
     (fst (snd (approveAll page5 (rejecting (approveOrReject approving 4)) (Some approving)
                  (page5, [])))) \<noteq> 100 * 1 / 3 \<and>
   approveAllComplete
     (fst (snd (approveAll page5 (rejecting (approveOrReject approving 4)) (Some approving)
                  (page5, [])))) \<noteq> js_divide (js_times 100 1) 3"
  by code_simp

text \<open>
  C8, amended. In a batch over \<open>n\<close> ids (\<open>approveAll\<close>, \<open>n\<close> selected ids) or \<open>n\<close> entries
  (\<open>undoAll\<close>), after the first \<open>k\<close> rounds have ended without a throw, \<open>0 < k\<close>, the
  percentage is \<open>100 * (k / n)\<close> as computed in doubles, which differs from \<open>100 * k / n\<close>
  by at most \<open>100 / 2 ^ 52\<close>; the percentage after \<open>j\<close> rounds, \<open>0 < j \<le> k\<close>, is at least
  0 and at most the one after \<open>k\<close> rounds, which is at most 100, and is exactly 100 when
  \<open>k = n\<close>.
\<close>

theorem approveAllComplete_during_batch:
  "(0 < j \<and> j \<le> k \<and>
    approvePrefix r api a' (length (captureImagesSelected r)) j w = (Inr (), (sj, tj)) \<and>
    approvePrefix r api a' (length (captureImagesSelected r)) k w = (Inr (), (sk, tk))
      \<longrightarrow> approveAllComplete sk =
            js_times 100 (js_divide (of_nat k) (of_nat (length (captureImagesSelected r)))) \<and>
          \<bar>approveAllComplete sk - 100 * of_nat k / of_nat (length (captureImagesSelected r))\<bar>
            \<le> 100 / 2 ^ 52 \<and>
          0 \<le> approveAllComplete sj \<and> approveAllComplete sj \<le> approveAllComplete sk \<and>
          approveAllComplete sk \<le> 100 \<and>
          (k = length (captureImagesSelected r) \<longrightarrow> approveAllComplete sk = 100)) \<and>
   (0 < j \<and> j \<le> k \<and>
    undoPrefix r api (length (captureImagesUndo r)) j w = (Inr (), (sj, tj)) \<and>
    undoPrefix r api (length (captureImagesUndo r)) k w = (Inr (), (sk, tk))
      \<longrightarrow> approveAllComplete sk =
            js_times 100 (js_divide (of_nat k) (of_nat (length (captureImagesUndo r)))) \<and>
          \<bar>approveAllComplete sk - 100 * of_nat k / of_nat (length (captureImagesUndo r))\<bar>
            \<le> 100 / 2 ^ 52 \<and>
          0 \<le> approveAllComplete sj \<and> approveAllComplete sj \<le> approveAllComplete sk \<and>
          approveAllComplete sk \<le> 100 \<and>
          (k = length (captureImagesUndo r) \<longrightarrow> approveAllComplete sk = 100))"
proof (intro conjI impI)
  let ?n = "length (captureImagesSelected r)"
  assume h: "0 < j \<and> j \<le> k \<and> approvePrefix r api a' ?n j w = (Inr (), (sj, tj)) \<and>
             approvePrefix r api a' ?n k w = (Inr (), (sk, tk))"
  obtain st tr where w: "w = (st, tr)" by (cases w)
  from h w have j: "0 < j" "j \<le> k"
    and pj: "approvePrefix r api a' ?n j (st, tr) = (Inr (), (sj, tj))"
    and pk: "approvePrefix r api a' ?n k (st, tr) = (Inr (), (sk, tk))"
    by simp_all
  from approvePrefix_Inr [OF pj] j
  have sj: "approveAllComplete sj = js_times 100 (js_divide (of_nat j) (of_nat ?n))" by simp
  from approvePrefix_Inr [OF pk] j
  have sk: "approveAllComplete sk = js_times 100 (js_divide (of_nat k) (of_nat ?n))"
    and k: "k \<le> ?n" by simp_all
  note m = percent_props [OF j k]
  from sk show "approveAllComplete sk = js_times 100 (js_divide (of_nat k) (of_nat ?n))" .
  from m(5) sk show "\<bar>approveAllComplete sk - 100 * of_nat k / of_nat ?n\<bar> \<le> 100 / 2 ^ 52"
    by simp
  from m(1) sj show "0 \<le> approveAllComplete sj" by simp
  from m(2) sj sk show "approveAllComplete sj \<le> approveAllComplete sk" by simp
  from m(3) sk show "approveAllComplete sk \<le> 100" by simp
  from m(4) sk show "approveAllComplete sk = 100" if "k = ?n" using that by simp
next
  let ?n = "length (captureImagesUndo r)"
  assume h: "0 < j \<and> j \<le> k \<and> undoPrefix r api ?n j w = (Inr (), (sj, tj)) \<and>
             undoPrefix r api ?n k w = (Inr (), (sk, tk))"
  obtain st tr where w: "w = (st, tr)" by (cases w)
  from h w have j: "0 < j" "j \<le> k"
    and pj: "undoPrefix r api ?n j (st, tr) = (Inr (), (sj, tj))"
    and pk: "undoPrefix r api ?n k (st, tr) = (Inr (), (sk, tk))"
    by simp_all
  from undoPrefix_Inr [OF pj] j
  have sj: "approveAllComplete sj = js_times 100 (js_divide (of_nat j) (of_nat ?n))" by simp
  from undoPrefix_Inr [OF pk] j
  have sk: "approveAllComplete sk = js_times 100 (js_divide (of_nat k) (of_nat ?n))"
    and k: "k \<le> ?n" by simp_all
  note m = percent_props [OF j k]
  from sk show "approveAllComplete sk = js_times 100 (js_divide (of_nat k) (of_nat ?n))" .
  from m(5) sk show "\<bar>approveAllComplete sk - 100 * of_nat k / of_nat ?n\<bar> \<le> 100 / 2 ^ 52"
    by simp
  from m(1) sj show "0 \<le> approveAllComplete sj" by simp
  from m(2) sj sk show "approveAllComplete sj \<le> approveAllComplete sk" by simp
  from m(3) sk show "approveAllComplete sk \<le> 100" by simp
  from m(4) sk show "approveAllComplete sk = 100" if "k = ?n" using that by simp
qed

theorem approveAllComplete_during_batch_witness:
  "approveAllComplete
     (fst (snd (approvePrefix page5 resolving (Some approving) 3 1 (page5, [])))) =
     js_times 100 (js_divide 1 3) \<and>
   approveAllComplete
     (fst (snd (approvePrefix page5 resolving (Some approving) 3 1 (page5, []))))
     \<le> approveAllComplete
         (fst (snd (approvePrefix page5 resolving (Some approving) 3 3 (page5, [])))) \<and>
   approveAllComplete
     (fst (snd (approvePrefix page5 resolving (Some approving) 3 3 (page5, [])))) = 100 \<and>
   approveAllComplete
     (fst (snd (undoPrefix afterApprove resolving 2 1 (afterApprove, [])))) =
     js_times 100 (js_divide 1 2) \<and>
   approveAllComplete
     (fst (snd (undoPrefix afterApprove resolving 2 2 (afterApprove, [])))) = 100"
proof -
  let ?n = "length (captureImagesSelected page5)"
  let ?m = "length (captureImagesUndo afterApprove)"
  let ?a = "\<lambda>k. approvePrefix page5 resolving (Some approving) ?n k (page5, [])"
  let ?u = "\<lambda>k. undoPrefix afterApprove resolving ?m k (afterApprove, [])"
  have n: "?n = 3" by (simp add: page5_def)
  have m: "?m = 2" by (simp add: afterApprove_def page5_def)
  have "fst (?a 1) = Inr ()" by code_simp
  then have a1: "?a 1 = (Inr (), (fst (snd (?a 1)), snd (snd (?a 1))))" by (simp add: prod_eq_iff)
  have "fst (?a 3) = Inr ()" by code_simp
  then have a3: "?a 3 = (Inr (), (fst (snd (?a 3)), snd (snd (?a 3))))" by (simp add: prod_eq_iff)
  have "fst (?u 1) = Inr ()" by code_simp
  then have u1: "?u 1 = (Inr (), (fst (snd (?u 1)), snd (snd (?u 1))))" by (simp add: prod_eq_iff)
  have "fst (?u 2) = Inr ()" by code_simp
  then have u2: "?u 2 = (Inr (), (fst (snd (?u 2)), snd (snd (?u 2))))" by (simp add: prod_eq_iff)
  have le: "(0::nat) < 1 \<and> (1::nat) \<le> 1" "(0::nat) < 1 \<and> (1::nat) \<le> 3"
    "(0::nat) < 1 \<and> (1::nat) \<le> 2"
    by simp_all
  note A1 = approveAllComplete_during_batch [where r = page5 and api = resolving
      and a' = "Some approving" and w = "(page5, [])" and j = 1 and k = 1,
      THEN conjunct1, rule_format, OF conjI [OF conjunct1 [OF le(1)]
        conjI [OF conjunct2 [OF le(1)] conjI [OF a1 a1]]]]
  note A3 = approveAllComplete_during_batch [where r = page5 and api = resolving
      and a' = "Some approving" and w = "(page5, [])" and j = 1 and k = 3,
      THEN conjunct1, rule_format, OF conjI [OF conjunct1 [OF le(2)]
        conjI [OF conjunct2 [OF le(2)] conjI [OF a1 a3]]]]
  note U1 = approveAllComplete_during_batch [where r = afterApprove and api = resolving
      and w = "(afterApprove, [])" and j = 1 and k = 1,
      THEN conjunct2, rule_format, OF conjI [OF conjunct1 [OF le(1)]
        conjI [OF conjunct2 [OF le(1)] conjI [OF u1 u1]]]]
  note U2 = approveAllComplete_during_batch [where r = afterApprove and api = resolving
      and w = "(afterApprove, [])" and j = 1 and k = 2,
      THEN conjunct2, rule_format, OF conjI [OF conjunct1 [OF le(3)]
        conjI [OF conjunct2 [OF le(3)] conjI [OF u1 u2]]]]
  from A1 A3 U1 U2 show ?thesis unfolding n m by simp
qed

subsection \<open>Page load\<close>



subsection \<open>Batch approve without an action\<close>

lemma approveItem_absent:
  "\<exists>e. approveItem r api None n i (st, tr) = (Inl e, (st, tr))"
proof (cases "i < length (captureImagesSelected r)")
  case True
  then show ?thesis
    by (simp add: approveItem_in approve_def split: option.splits)
next
  case False
  then show ?thesis by (simp add: approveItem_out)
qed

lemma approveLoop_absent:
  assumes "0 < n"
  shows "\<exists>e. approveLoop r api None n 0 (st, tr) = (Inl e, (st, tr))"
proof -
  from approveItem_absent [of r api n 0 st tr]
  obtain e where "approveItem r api None n 0 (st, tr) = (Inl e, (st, tr))" by blast
  with assms show ?thesis by (simp add: approveLoop.simps [of r api None n 0])
qed

text \<open>
  C6 as stated fails when nothing is selected: the loop has no round, \<open>approve\<close> is never
  called, and \<open>approveAll\<close> with no action returns \<open>true\<close> after reloading the page.
\<close>

theorem absent_action_nothing_selected:
  "captureImagesSelected noSelection = [] \<and>
   approveAll noSelection resolving None (noSelection, []) =
     (Inr True,
      (noSelection\<lparr>captureImages := [img 1, img 3], invalidateCaptureCount := True\<rparr>,
       [GetCaptureImages 0 24 \<lparr>approved = False, active = True\<rparr>]))"
  by code_simp

text \<open>
  C6, amended. When at least one id is selected, \<open>approveAll\<close> with no action returns
  \<open>false\<close> (the first round throws, and the throw is caught), makes no call at all and
  leaves the loading flag and the processing flag false. Whatever is selected, \<open>approveAll\<close>
  with no action makes no approve, reject or tag call.
\<close>

theorem approveAll_absent_action:
  "(captureImagesSelected r \<noteq> [] \<longrightarrow>
      approveAll r api None (st, tr) =
        (Inr False, (st\<lparr>isLoading := False, isApproveAllProcessing := False\<rparr>, tr))) \<and>
   filter isItemCall (snd (snd (approveAll r api None (st, tr)))) = filter isItemCall tr"
proof -
  let ?n = "length (captureImagesSelected r)"
  let ?st1 = "st\<lparr>isLoading := True, isApproveAllProcessing := True\<rparr>"
  have a: "approveAll r api None (st, tr) =
             (Inr False, (st\<lparr>isLoading := False, isApproveAllProcessing := False\<rparr>, tr))"
    if "captureImagesSelected r \<noteq> []"
  proof -
    from that have "0 < ?n" by simp
    from approveLoop_absent [OF this, of r api ?st1 tr]
    obtain e where "approveLoop r api None ?n 0 (?st1, tr) = (Inl e, (?st1, tr))" by blast
    from approveAll_failed [OF this] show ?thesis by simp
  qed
  have b: "filter isItemCall (snd (snd (approveAll r api None (st, tr)))) = filter isItemCall tr"
  proof (cases "captureImagesSelected r = []")
    case False
    with a show ?thesis by simp
  next
    case True
    then have "approveLoop r api None ?n 0 (?st1, tr) = (Inr (), (?st1, tr))"
      by (simp add: approveLoop.simps [of r api None 0 0])
    from approveAll_trace [OF this] show ?thesis by auto
  qed
  from a b show ?thesis by blast
qed

theorem approveAll_absent_action_witness:
  "captureImagesSelected page5 \<noteq> [] \<and>
   approveAll page5 resolving None (page5, []) = (Inr False, (page5, []))"
proof -
  have ne: "captureImagesSelected page5 \<noteq> []" by (simp add: page5_def)
  from approveAll_absent_action [where r = page5 and api = resolving and st = page5
      and tr = "[]", THEN conjunct1, rule_format, OF ne] ne
  show ?thesis by (simp add: page5_def)
qed

subsection \<open>Modifier click\<close>

lemma find_id: "find (\<lambda>el. el = k) xs = (if k \<in> set xs then Some k else None)"
  by (induction xs) auto

lemma findTruthy_member: "k \<noteq> 0 \<Longrightarrow> findTruthy sel k = (k \<in> set sel)"
  by (simp add: findTruthy_def find_id)

lemma clickCapture_modifier:
  assumes "\<not> isShift p" "isCmd p \<or> isCtrl p" "captureId p \<noteq> 0"
  shows "clickCapture r p st =
           st\<lparr>captureImagesSelected :=
                 (if captureId p \<in> set (captureImagesSelected r)
                  then filter (\<lambda>c. c \<noteq> captureId p) (captureImagesSelected r)
                  else captureImagesSelected r @ [captureId p])\<rparr>"
  using assms by (auto simp: clickCapture_def findTruthy_member)

text \<open>
  C7 as stated fails on the order of the selection: with \<open>[2, 4, 5]\<close> selected, a modifier
  click on 2 gives \<open>[4, 5]\<close> and the second one gives \<open>[4, 5, 2]\<close>.
\<close>

theorem modifier_clicks_reorder:
  "captureImagesSelected page5 = [2, 4, 5] \<and>
   captureImagesSelected (clickCapture page5 ctrlClick2 page5) = [4, 5] \<and>
   captureImagesSelected
     (clickCapture (clickCapture page5 ctrlClick2 page5) ctrlClick2
        (clickCapture page5 ctrlClick2 page5)) = [4, 5, 2] \<and>
   clickCapture (clickCapture page5 ctrlClick2 page5) ctrlClick2
        (clickCapture page5 ctrlClick2 page5) \<noteq> page5"
  by code_simp

text \<open>
  C7, amended. For an id other than 0, two modifier clicks in a row on the same id leave the
  anchor as it is and give a selection with the same set of ids as before. The first click
  removes the id when it is selected and appends it otherwise; the second click appends it or
  removes it again. The sequence is the one before the clicks when the id was not selected,
  or was the last selected id and occurred once; otherwise the id has moved to the end.
\<close>

theorem clickCapture_toggle_twice:
  "\<not> isShift p \<and> (isCmd p \<or> isCtrl p) \<and> captureId p \<noteq> 0 \<longrightarrow>
     (let s1 = clickCapture s p s; s2 = clickCapture s1 p s1 in
        captureImageAnchor s1 = captureImageAnchor s \<and>
        captureImageAnchor s2 = captureImageAnchor s \<and>
        set (captureImagesSelected s2) = set (captureImagesSelected s) \<and>
        (captureId p \<notin> set (captureImagesSelected s) \<longrightarrow>
           captureImagesSelected s1 = captureImagesSelected s @ [captureId p] \<and> s2 = s) \<and>
        (captureId p \<in> set (captureImagesSelected s) \<longrightarrow>
           captureImagesSelected s1 =
             filter (\<lambda>c. c \<noteq> captureId p) (captureImagesSelected s) \<and>
           captureImagesSelected s2 =
             filter (\<lambda>c. c \<noteq> captureId p) (captureImagesSelected s) @ [captureId p]) \<and>
        (captureImagesSelected s = xs @ [captureId p] \<and> captureId p \<notin> set xs \<longrightarrow> s2 = s))"
proof (intro impI)
  assume h: "\<not> isShift p \<and> (isCmd p \<or> isCtrl p) \<and> captureId p \<noteq> 0"
  then have m: "\<not> isShift p" "isCmd p \<or> isCtrl p" "captureId p \<noteq> 0" by simp_all
  let ?k = "captureId p"
  let ?sel = "captureImagesSelected s"
  define s1 where "s1 = clickCapture s p s"
  define s2 where "s2 = clickCapture s1 p s1"
  have s1: "s1 = s\<lparr>captureImagesSelected :=
                 (if ?k \<in> set ?sel then filter (\<lambda>c. c \<noteq> ?k) ?sel else ?sel @ [?k])\<rparr>"
    unfolding s1_def by (rule clickCapture_modifier [OF m])
  have s2: "s2 = s1\<lparr>captureImagesSelected :=
                 (if ?k \<in> set (captureImagesSelected s1)
                  then filter (\<lambda>c. c \<noteq> ?k) (captureImagesSelected s1)
                  else captureImagesSelected s1 @ [?k])\<rparr>"
    unfolding s2_def by (rule clickCapture_modifier [OF m])
  have out: "captureImagesSelected s1 = ?sel @ [?k] \<and> s2 = s" if "?k \<notin> set ?sel"
  proof -
    from that s1 have a: "captureImagesSelected s1 = ?sel @ [?k]" by simp
    have "filter (\<lambda>c. c \<noteq> ?k) ?sel = ?sel" using that by (auto simp: filter_id_conv)
    with a s2 s1 that show ?thesis by simp
  qed
  have inn: "captureImagesSelected s1 = filter (\<lambda>c. c \<noteq> ?k) ?sel \<and>
             captureImagesSelected s2 = filter (\<lambda>c. c \<noteq> ?k) ?sel @ [?k]" if "?k \<in> set ?sel"
    using that s1 s2 by simp
  have last: "s2 = s" if "?sel = xs @ [?k] \<and> ?k \<notin> set xs"
  proof -
    from that have "?k \<in> set ?sel" by simp
    from inn [OF this] that have "captureImagesSelected s2 = ?sel"
      by (auto simp: filter_id_conv)
    moreover from s1 s2 have "s2 = s\<lparr>captureImagesSelected := captureImagesSelected s2\<rparr>"
      by simp
    ultimately show ?thesis by simp
  qed
  have anchor: "captureImageAnchor s1 = captureImageAnchor s"
    "captureImageAnchor s2 = captureImageAnchor s"
    using s1 s2 by simp_all
  have sets: "set (captureImagesSelected s2) = set ?sel"
  proof (cases "?k \<in> set ?sel")
    case True
    from inn [OF True] True show ?thesis by auto
  next
    case False
    from out [OF False] show ?thesis by simp
  qed
  from anchor sets out inn last
  show "let s1 = clickCapture s p s; s2 = clickCapture s1 p s1 in
        captureImageAnchor s1 = captureImageAnchor s \<and>
        captureImageAnchor s2 = captureImageAnchor s \<and>
        set (captureImagesSelected s2) = set (captureImagesSelected s) \<and>
        (captureId p \<notin> set (captureImagesSelected s) \<longrightarrow>
           captureImagesSelected s1 = captureImagesSelected s @ [captureId p] \<and> s2 = s) \<and>
        (captureId p \<in> set (captureImagesSelected s) \<longrightarrow>
           captureImagesSelected s1 =
             filter (\<lambda>c. c \<noteq> captureId p) (captureImagesSelected s) \<and>
           captureImagesSelected s2 =
             filter (\<lambda>c. c \<noteq> captureId p) (captureImagesSelected s) @ [captureId p]) \<and>
        (captureImagesSelected s = xs @ [captureId p] \<and> captureId p \<notin> set xs \<longrightarrow> s2 = s)"
    unfolding Let_def s1_def [symmetric] s2_def [symmetric] by blast
qed

theorem clickCapture_toggle_twice_witness:
  "set (captureImagesSelected
          (clickCapture (clickCapture page5 ctrlClick2 page5) ctrlClick2
             (clickCapture page5 ctrlClick2 page5))) = {2, 4, 5} \<and>
   captureImageAnchor
     (clickCapture (clickCapture page5 ctrlClick2 page5) ctrlClick2
        (clickCapture page5 ctrlClick2 page5)) = Some 2"
proof -
  have h: "\<not> isShift ctrlClick2 \<and> (isCmd ctrlClick2 \<or> isCtrl ctrlClick2) \<and>
           captureId ctrlClick2 \<noteq> 0"
    by (simp add: ctrlClick2_def)
  from clickCapture_toggle_twice [where p = ctrlClick2 and s = page5 and xs = "[]",
      rule_format, OF h]
  have "set (captureImagesSelected
          (clickCapture (clickCapture page5 ctrlClick2 page5) ctrlClick2
             (clickCapture page5 ctrlClick2 page5))) = set (captureImagesSelected page5) \<and>
        captureImageAnchor
          (clickCapture (clickCapture page5 ctrlClick2 page5) ctrlClick2
             (clickCapture page5 ctrlClick2 page5)) = captureImageAnchor page5"
    unfolding Let_def by blast
  then show ?thesis by (simp add: page5_def)
qed

text \<open>
  The id 0: \<open>find\<close> gives the element itself and \<open>0\<close> is falsy, so a modifier click on 0
  never takes the removing branch.
\<close>

lemma clickCapture_modifier_zero:
  assumes "\<not> isShift p" "isCmd p \<or> isCtrl p" "captureId p = 0"
  shows "clickCapture r p st = st\<lparr>captureImagesSelected := captureImagesSelected r @ [0]\<rparr>"
  using assms by (auto simp: clickCapture_def findTruthy_def find_id)

subsection \<open>Shift click\<close>

lemma indexOfId_snoc:
  "indexOfId (cs @ [c]) k = (if id_of c = k then int (length cs) else indexOfId cs k)"
  by (simp add: indexOfId_def)

lemma indexOfId_absent: "k \<notin> id_of ` set cs \<Longrightarrow> indexOfId cs k = - 1"
proof (induction cs rule: rev_induct)
  case Nil
  then show ?case by (simp add: indexOfId_def)
next
  case (snoc c cs)
  then show ?case by (simp add: indexOfId_snoc)
qed

lemma indexOfId_present:
  "k \<in> id_of ` set cs \<Longrightarrow>
     0 \<le> indexOfId cs k \<and> nat (indexOfId cs k) < length cs \<and>
     id_of (cs ! nat (indexOfId cs k)) = k"
proof (induction cs rule: rev_induct)
  case Nil
  then show ?case by simp
next
  case (snoc c cs)
  show ?case
  proof (cases "id_of c = k")
    case True
    then show ?thesis by (simp add: indexOfId_snoc)
  next
    case False
    with snoc.prems have "k \<in> id_of ` set cs" by auto
    from snoc.IH [OF this] False show ?thesis
      by (simp add: indexOfId_snoc nth_append)
  qed
qed

lemma slice_between:
  assumes "a \<le> b" "b < length xs"
  shows "slice xs (int a) (int b + 1) = take (b - a + 1) (drop a xs)"
proof -
  have "nat (int b + 1 - int a) = b - a + 1" using assms by simp
  moreover have "min (int a) (int (length xs)) = int a" using assms by simp
  moreover have "min (int b + 1) (int (length xs)) = int b + 1" using assms by simp
  ultimately show ?thesis by (simp add: slice_def Let_def)
qed

text \<open>
  The shift click where the code and C3 agree: the clicked id is on a loaded capture, and the
  anchor is not set or is on a loaded capture. The selection is then the ids from the lower to
  the higher of the two positions, and the clicked id is among them.
\<close>

lemma clickCapture_shift_range:
  assumes shift: "isShift p"
      and cur: "captureId p \<in> id_of ` set (captureImages r)"
      and anc: "captureImageAnchor r = None \<or>
                (\<exists>a. captureImageAnchor r = Some a \<and> a \<in> id_of ` set (captureImages r))"
      and ia: "ia = (case captureImageAnchor r of
                       None \<Rightarrow> 0 | Some a \<Rightarrow> nat (indexOfId (captureImages r) a))"
      and ic: "ic = nat (indexOfId (captureImages r) (captureId p))"
  shows "clickCapture r p st =
           st\<lparr>captureImagesSelected :=
                 map id_of (take (max ia ic - min ia ic + 1) (drop (min ia ic) (captureImages r)))\<rparr>"
    and "captureId p \<in> set (captureImagesSelected (clickCapture r p st))"
proof -
  let ?cs = "captureImages r"
  from indexOfId_present [OF cur] ic
  have c: "indexOfId ?cs (captureId p) = int ic" "ic < length ?cs" "id_of (?cs ! ic) = captureId p"
    by simp_all
  have a: "(case captureImageAnchor r of None \<Rightarrow> 0 | Some a \<Rightarrow> indexOfId ?cs a) = int ia \<and>
           ia < length ?cs"
  proof (cases "captureImageAnchor r")
    case None
    with ia c show ?thesis by auto
  next
    case (Some a)
    with anc have "a \<in> id_of ` set ?cs" by simp
    from indexOfId_present [OF this] Some ia show ?thesis by simp
  qed
  have lo: "min (int ia) (int ic) = int (min ia ic)" and hi: "max (int ia) (int ic) = int (max ia ic)"
    by simp_all
  have b: "min ia ic \<le> max ia ic" "max ia ic < length ?cs" using a c by simp_all
  from shift a c show sel: "clickCapture r p st =
           st\<lparr>captureImagesSelected :=
                 map id_of (take (max ia ic - min ia ic + 1) (drop (min ia ic) ?cs))\<rparr>"
    by (simp add: clickCapture_def Let_def lo hi slice_between [OF b])
  have "ic - min ia ic < max ia ic - min ia ic + 1" by auto
  moreover have "min ia ic + (ic - min ia ic) = ic" by auto
  ultimately have "take (max ia ic - min ia ic + 1) (drop (min ia ic) ?cs) ! (ic - min ia ic) = ?cs ! ic"
    using c(2) by simp
  moreover have "ic - min ia ic < length (take (max ia ic - min ia ic + 1) (drop (min ia ic) ?cs))"
    using b c(2) by auto
  ultimately have "?cs ! ic \<in> set (take (max ia ic - min ia ic + 1) (drop (min ia ic) ?cs))"
    by (metis nth_mem)
  then have "id_of (?cs ! ic) \<in> set (map id_of (take (max ia ic - min ia ic + 1) (drop (min ia ic) ?cs)))"
    by simp
  with c(3) sel show "captureId p \<in> set (captureImagesSelected (clickCapture r p st))"
    by simp
qed

text \<open>
  C3 does not hold of the code when an anchor is set whose id is on no loaded capture: the
  \<open>reduce\<close> then gives \<open>-1\<close>, not \<open>0\<close>, and \<open>slice(-1, ...)\<close> counts the start from the
  end of the array. On the page with the captures 1 to 5 and the anchor 9, a shift click on 2
  selects nothing, where the claim gives \<open>[1, 2]\<close>.
\<close>

theorem clickCapture_shift_stale_anchor:
  "map id_of (captureImages staleAnchor) = [1, 2, 3, 4, 5] \<and>
   captureImageAnchor staleAnchor = Some 9 \<and>
   captureId shiftClick2 = 2 \<and> isShift shiftClick2 \<and>
   indexOfId (captureImages staleAnchor) 9 = - 1 \<and>
   indexOfId (captureImages staleAnchor) 2 = 1 \<and>
   captureImagesSelected (clickCapture staleAnchor shiftClick2 staleAnchor) = []"
  by code_simp

end
